theory Spec2Isabelle
  imports Complex_Main "HOL-Library.Sublist" "HOL-Library.AList" "HOL-Library.Multiset"
begin

section \<open>Data model of simplemind\_parser.py\<close>

text \<open>
  Python objects are references: the same \<open>SimpleMindNode\<close> object is held by the
  \<open>nodes\<close> dict of the map and by the \<open>children\<close> list of its parent.  The model
  therefore keeps an explicit store of node objects (a list indexed by address; a
  constructor call appends to it) and lets the dict and the children lists hold
  addresses.  A Python reference always denotes a live object, so every address the
  program handles is below the length of the store.

  \<open>id\<close> and \<open>parent_id\<close> are \<open>Optional[str]\<close> at run time (the decoder passes on
  what \<open>topic.get\<close> returns), hence \<open>string option\<close>.  Coordinates are Python floats,
  modelled by reals (rounding error of binary floating point is not modelled).
  A string is a sequence of code points below 256.
\<close>

type_synonym addr = nat

record node =
  n_id :: "string option"
  n_text :: string
  n_parent_id :: "string option"
  n_x :: real
  n_y :: real
  n_notes :: string
  n_guid :: string
  n_palette :: string
  n_colorinfo :: string
  n_icon :: string
  n_url_link :: string
  n_layout_mode :: string
  n_layout_direction :: string
  n_layout_flow :: string
  n_children :: "addr list"
  n_parent_relation_guid :: string

type_synonym heap = "node list"

record relation =
  r_guid :: string
  r_source :: string
  r_target :: string

text \<open>A Python dict is an association list in insertion order: \<open>AList.update\<close>
  overwrites in place or appends, as \<open>d[k] = v\<close> does; \<open>AList.delete\<close> is \<open>del d[k]\<close>.\<close>

record mindmap =
  m_title :: string
  m_nodes :: "(string option \<times> addr) list"
  m_root_node :: "addr option"
  m_guid :: string
  m_style :: string
  m_zoom :: int
  m_scroll_x :: real
  m_scroll_y :: real
  m_contains_images :: bool
  m_relations :: "relation list"
  m_images :: "(string \<times> string) list"

type_synonym state = "heap \<times> mindmap"

text \<open>\<open>SimpleMindNode.__init__\<close> with its defaults; keyword arguments are record updates.\<close>

definition SimpleMindNode :: "string option \<Rightarrow> string \<Rightarrow> node" where
  "SimpleMindNode i t =
    \<lparr>n_id = i, n_text = t, n_parent_id = None, n_x = 0, n_y = 0, n_notes = [],
     n_guid = [], n_palette = [], n_colorinfo = [], n_icon = [], n_url_link = [],
     n_layout_mode = [], n_layout_direction = [], n_layout_flow = [],
     n_children = [], n_parent_relation_guid = []\<rparr>"

text \<open>Allocation of a freshly constructed object.\<close>

definition new_object :: "node \<Rightarrow> heap \<Rightarrow> addr \<times> heap" where
  "new_object n h = (length h, h @ [n\<lparr>n_children := [], n_parent_relation_guid := []\<rparr>])"

text \<open>\<open>SimpleMindMap.__init__\<close>.\<close>

definition SimpleMindMap :: "string \<Rightarrow> mindmap" where
  "SimpleMindMap t =
    \<lparr>m_title = t, m_nodes = [], m_root_node = None, m_guid = [],
     m_style = ''system.bright-palette'', m_zoom = 100, m_scroll_x = 0, m_scroll_y = 0,
     m_contains_images = False, m_relations = [], m_images = []\<rparr>"

abbreviation sentinel :: "string option" where
  "sentinel \<equiv> Some ''-1''"

text \<open>\<open>SimpleMindMap.add_node\<close>: the lookup of the parent happens after the node
  itself has been stored in the dict.\<close>

definition add_node :: "addr \<Rightarrow> state \<Rightarrow> state" where
  "add_node a s =
    (let h = fst s; m = snd s; n = h ! a;
         m1 = m\<lparr>m_nodes := AList.update (n_id n) a (m_nodes m)\<rparr>
     in if n_parent_id n = sentinel then (h, m1\<lparr>m_root_node := Some a\<rparr>)
        else (case map_of (m_nodes m1) (n_parent_id n) of
                None \<Rightarrow> (h, m1)
              | Some p \<Rightarrow> (h[p := (h ! p)\<lparr>n_children := n_children (h ! p) @ [a]\<rparr>], m1)))"

definition get_node :: "mindmap \<Rightarrow> string option \<Rightarrow> addr option" where
  "get_node m k = map_of (m_nodes m) k"

subsection \<open>Strings\<close>

text \<open>\<open>str.lower\<close>.  Below 256 the code points with a lower-case form are \<open>A\<close> to
  \<open>Z\<close> and \<open>0xC0\<close> to \<open>0xDE\<close> without the multiplication sign \<open>0xD7\<close>; the form is 32
  above, and no context rule applies.\<close>

definition upper_chars :: string where
  "upper_chars = ''ABCDEFGHIJKLMNOPQRSTUVWXYZ'' @
     [CHR 0xC0, CHR 0xC1, CHR 0xC2, CHR 0xC3, CHR 0xC4, CHR 0xC5, CHR 0xC6, CHR 0xC7,
      CHR 0xC8, CHR 0xC9, CHR 0xCA, CHR 0xCB, CHR 0xCC, CHR 0xCD, CHR 0xCE, CHR 0xCF,
      CHR 0xD0, CHR 0xD1, CHR 0xD2, CHR 0xD3, CHR 0xD4, CHR 0xD5, CHR 0xD6,
      CHR 0xD8, CHR 0xD9, CHR 0xDA, CHR 0xDB, CHR 0xDC, CHR 0xDD, CHR 0xDE]"

definition lower_chars :: string where
  "lower_chars = ''abcdefghijklmnopqrstuvwxyz'' @
     [CHR 0xE0, CHR 0xE1, CHR 0xE2, CHR 0xE3, CHR 0xE4, CHR 0xE5, CHR 0xE6, CHR 0xE7,
      CHR 0xE8, CHR 0xE9, CHR 0xEA, CHR 0xEB, CHR 0xEC, CHR 0xED, CHR 0xEE, CHR 0xEF,
      CHR 0xF0, CHR 0xF1, CHR 0xF2, CHR 0xF3, CHR 0xF4, CHR 0xF5, CHR 0xF6,
      CHR 0xF8, CHR 0xF9, CHR 0xFA, CHR 0xFB, CHR 0xFC, CHR 0xFD, CHR 0xFE]"

definition lower_char :: "char \<Rightarrow> char" where
  "lower_char c = (case map_of (zip upper_chars lower_chars) c of Some l \<Rightarrow> l | None \<Rightarrow> c)"

definition lower :: "string \<Rightarrow> string" where
  "lower s = map lower_char s"




subsection \<open>Integers as text\<close>

text \<open>\<open>str(n)\<close> and \<open>int(s)\<close> for decimal text.  \<open>int\<close> strips white space, takes an
  optional sign and then digits, where single underscores may separate digits.  The
  white space that \<open>int\<close> and \<open>float\<close> strip is, below 256, tab to carriage return,
  space, \<open>0x85\<close> and \<open>0xA0\<close>.\<close>

definition is_digit :: "char \<Rightarrow> bool" where
  "is_digit c \<longleftrightarrow> c \<in> set ''0123456789''"

definition is_space :: "char \<Rightarrow> bool" where
  "is_space c \<longleftrightarrow>
     c \<in> set [CHR '' '', CHR 0x09, CHR 0x0A, CHR 0x0B, CHR 0x0C, CHR 0x0D,
               CHR 0x85, CHR 0xA0]"

definition digit_val :: "char \<Rightarrow> nat" where
  "digit_val c = (case map_of (zip ''0123456789'' [0, 1, 2, 3, 4, 5, 6, 7, 8, 9]) c of Some d \<Rightarrow> d | None \<Rightarrow> 0)"

definition digit_char :: "nat \<Rightarrow> char" where
  "digit_char d = ''0123456789'' ! d"

fun str_nat :: "nat \<Rightarrow> string" where
  "str_nat n = (if n < 10 then [digit_char n] else str_nat (n div 10) @ [digit_char (n mod 10)])"

declare str_nat.simps [simp del]

definition py_str :: "int \<Rightarrow> string" where
  "py_str i = (if i < 0 then CHR ''-'' # str_nat (nat (- i)) else str_nat (nat i))"

definition nat_of_digits :: "string \<Rightarrow> nat" where
  "nat_of_digits s = foldl (\<lambda>a c. 10 * a + digit_val c) 0 s"

fun digits_ok :: "bool \<Rightarrow> string \<Rightarrow> bool" where
  "digits_ok prev [] = prev"
| "digits_ok prev (c # cs) =
     (if is_digit c then digits_ok True cs
      else if c = CHR ''_'' \<and> prev then digits_ok False cs
      else False)"

definition strip :: "string \<Rightarrow> string" where
  "strip s = rev (dropWhile is_space (rev (dropWhile is_space s)))"

datatype pyexc = ValueError | TypeError | RecursionError | KeyError

definition int_of_text :: "string \<Rightarrow> int option" where
  "int_of_text s =
    (let t = strip s;
         neg = (t \<noteq> [] \<and> hd t = CHR ''-'');
         body = (if t \<noteq> [] \<and> (hd t = CHR ''-'' \<or> hd t = CHR ''+'') then tl t else t)
     in if digits_ok False body
        then Some ((if neg then - 1 else 1) * int (nat_of_digits (filter is_digit body)))
        else None)"

text \<open>\<open>int(x)\<close> on a value that is a string or \<open>None\<close>.\<close>

definition py_int :: "string option \<Rightarrow> pyexc + int" where
  "py_int k = (case k of None \<Rightarrow> Inl TypeError
               | Some s \<Rightarrow> (case int_of_text s of None \<Rightarrow> Inl ValueError | Some v \<Rightarrow> Inr v))"

text \<open>The list comprehension \<open>[int(nid) for nid in keys]\<close>: the first failure ends it.\<close>

fun ints_of :: "string option list \<Rightarrow> pyexc + int list" where
  "ints_of [] = Inr []"
| "ints_of (k # ks) =
     (case py_int k of Inl e \<Rightarrow> Inl e
      | Inr v \<Rightarrow> (case ints_of ks of Inl e \<Rightarrow> Inl e | Inr vs \<Rightarrow> Inr (v # vs)))"

text \<open>\<open>max(xs)\<close>, which raises \<open>ValueError\<close> on the empty list.\<close>

definition py_max :: "int list \<Rightarrow> pyexc + int" where
  "py_max vs = (case vs of [] \<Rightarrow> Inl ValueError | v # ws \<Rightarrow> Inr (fold max ws v))"

section \<open>Tool handlers of simplemind\_mcp\_server.py\<close>

text \<open>
  Each handler reads the map from the file, works on the object in memory and writes
  it back.  The definitions below are the in-memory part between \<open>read_mindmap\<close> and
  \<open>write_mindmap\<close>.  A handler answers with a text; the model keeps which branch
  answered: \<open>NotFoundError\<close> for the replies "... not found", \<open>InvalidOperationError\<close>
  for the explicit refusals ("Must provide either text or notes", "Cannot delete the
  root node"), and \<open>Uncaught e\<close> for an exception \<open>e\<close> that reached the blanket
  \<open>except Exception\<close> of \<open>handle_call_tool\<close>.
\<close>

datatype error = NotFoundError | InvalidOperationError | Uncaught pyexc

text \<open>Lines 450 to 494: the position of the new child.\<close>

definition offset_mult :: "nat \<Rightarrow> int" where
  "offset_mult child_index =
     (if child_index mod 2 = 0 then int (child_index div 2)
      else - int ((child_index + 1) div 2))"

definition new_position :: "node option \<Rightarrow> node \<Rightarrow> real \<times> real" where
  "new_position grandparent parent =
    (case grandparent of
       Some g \<Rightarrow>
         (let dx = n_x parent - n_x g; dy = n_y parent - n_y g;
              base_x = n_x parent + dx; base_y = n_y parent + dy
          in if length (n_children parent) > 0
             then (let perp_dx = - dy; perp_dy = dx;
                       perp_length = sqrt (perp_dx\<^sup>2 + perp_dy\<^sup>2);
                       perp_dx' = (if perp_length > 0 then (perp_dx / perp_length) * 80 else perp_dx);
                       perp_dy' = (if perp_length > 0 then (perp_dy / perp_length) * 80 else perp_dy);
                       om = real_of_int (offset_mult (length (n_children parent)))
                   in (base_x + perp_dx' * om, base_y + perp_dy' * om))
             else (base_x, base_y))
     | None \<Rightarrow> (n_x parent + 200, n_y parent + real (length (n_children parent) * 100)))"

text \<open>The \<open>add_node\<close> tool.  The result carries the new id.\<close>

definition handle_add_node ::
  "string \<Rightarrow> string \<Rightarrow> string \<Rightarrow> state \<Rightarrow> error + (state \<times> string)" where
  "handle_add_node parent_id text notes s =
    (let h = fst s; m = snd s in
     case get_node m (Some parent_id) of
       None \<Rightarrow> Inl NotFoundError
     | Some parent \<Rightarrow>
        (case ints_of (map fst (m_nodes m)) of
           Inl e \<Rightarrow> Inl (Uncaught e)
         | Inr vs \<Rightarrow>
            (case py_max vs of
               Inl e \<Rightarrow> Inl (Uncaught e)
             | Inr mx \<Rightarrow>
                (let new_id = py_str (mx + 1);
                     grandparent = (if n_parent_id (h ! parent) \<noteq> sentinel
                                    then get_node m (n_parent_id (h ! parent)) else None);
                     pos = new_position (map_option (\<lambda>g. h ! g) grandparent) (h ! parent);
                     (a, h') = new_object
                        ((SimpleMindNode (Some new_id) text)
                           \<lparr>n_parent_id := Some parent_id, n_x := fst pos, n_y := snd pos,
                            n_notes := notes, n_guid := ''GENERATED_'' @ new_id\<rparr>) h
                 in Inr (add_node a (h', m), new_id)))))"

text \<open>The \<open>update_node\<close> tool; \<open>text\<close> and \<open>notes\<close> are \<open>arguments.get(...)\<close>, so
  \<open>None\<close> when the caller left them out.  \<open>truthy\<close> is Python's truth value of an
  optional string.\<close>

definition truthy :: "string option \<Rightarrow> bool" where
  "truthy v \<longleftrightarrow> v \<noteq> None \<and> v \<noteq> Some []"

definition handle_update_node ::
  "string \<Rightarrow> string option \<Rightarrow> string option \<Rightarrow> state \<Rightarrow> error + state" where
  "handle_update_node node_id new_text new_notes s =
    (let h = fst s; m = snd s in
     if \<not> truthy new_text \<and> \<not> truthy new_notes then Inl InvalidOperationError
     else (case get_node m (Some node_id) of
        None \<Rightarrow> Inl NotFoundError
      | Some a \<Rightarrow>
         (let h1 = (if truthy new_text then h[a := (h ! a)\<lparr>n_text := the new_text\<rparr>] else h);
              h2 = (case new_notes of
                      Some nn \<Rightarrow> h1[a := (h1 ! a)\<lparr>n_notes := nn\<rparr>]
                    | None \<Rightarrow> h1)
          in Inr (h2, m))))"

text \<open>The \<open>delete_node\<close> tool.  Its two local functions recurse through the children
  lists; the first argument bounds the depth of the recursion, as Python's recursion
  limit does, and \<open>None\<close> is \<open>RecursionError\<close>.  The reply is
  \<open>Deleted node '{node.text}' and {deleted_count - 1} descendants\<close>; the result carries
  the number it prints.\<close>

fun count_descendants :: "nat \<Rightarrow> heap \<Rightarrow> addr \<Rightarrow> nat option" where
  "count_descendants 0 h a = None"
| "count_descendants (Suc k) h a =
     fold (\<lambda>child count.
             case count of None \<Rightarrow> None
             | Some c \<Rightarrow> (case count_descendants k h child of
                            None \<Rightarrow> None | Some d \<Rightarrow> Some (c + d)))
          (n_children (h ! a)) (Some 1)"

fun remove_node_and_children ::
  "nat \<Rightarrow> heap \<Rightarrow> addr \<Rightarrow> (string option \<times> addr) list \<Rightarrow> (string option \<times> addr) list option" where
  "remove_node_and_children 0 h a nodes = None"
| "remove_node_and_children (Suc k) h a nodes =
     (case fold (\<lambda>child acc. case acc of None \<Rightarrow> None
                              | Some d \<Rightarrow> remove_node_and_children k h child d)
                (n_children (h ! a)) (Some nodes) of
        None \<Rightarrow> None
      | Some d \<Rightarrow> Some (if n_id (h ! a) \<in> fst ` set d then AList.delete (n_id (h ! a)) d else d))"

definition handle_delete_node :: "nat \<Rightarrow> string \<Rightarrow> state \<Rightarrow> error + (state \<times> int)" where
  "handle_delete_node rlimit node_id s =
    (let h = fst s; m = snd s in
     case get_node m (Some node_id) of
       None \<Rightarrow> Inl NotFoundError
     | Some a \<Rightarrow>
        if n_parent_id (h ! a) = sentinel then Inl InvalidOperationError
        else (case count_descendants rlimit h a of
           None \<Rightarrow> Inl (Uncaught RecursionError)
         | Some deleted_count \<Rightarrow>
            (let h1 = (case get_node m (n_parent_id (h ! a)) of
                         Some p \<Rightarrow> h[p := (h ! p)\<lparr>n_children :=
                                      filter (\<lambda>c. n_id (h ! c) \<noteq> Some node_id) (n_children (h ! p))\<rparr>]
                       | None \<Rightarrow> h)
             in case remove_node_and_children rlimit h1 a (m_nodes m) of
                  None \<Rightarrow> Inl (Uncaught RecursionError)
                | Some d \<Rightarrow> Inr ((h1, m\<lparr>m_nodes := d\<rparr>), int deleted_count - 1))))"

text \<open>The \<open>get_node_path\<close> tool.  The \<open>while\<close> loop has no bound; a run that never
  leaves it is the value \<open>None\<close>.\<close>

partial_function (option) path_loop ::
  "state \<Rightarrow> (string option \<times> string) list \<Rightarrow> addr option \<Rightarrow> (string option \<times> string) list option" where
  "path_loop s path current =
    (case current of
       None \<Rightarrow> Some path
     | Some c \<Rightarrow>
        if n_parent_id (fst s ! c) = sentinel
        then Some ((n_id (fst s ! c), n_text (fst s ! c)) # path)
        else path_loop s ((n_id (fst s ! c), n_text (fst s ! c)) # path)
               (get_node (snd s) (n_parent_id (fst s ! c))))"

definition handle_get_node_path ::
  "string \<Rightarrow> state \<Rightarrow> (error + (string option \<times> string) list) option" where
  "handle_get_node_path node_id s =
    (case get_node (snd s) (Some node_id) of
       None \<Rightarrow> Some (Inl NotFoundError)
     | Some a \<Rightarrow> map_option Inr (path_loop s [] (Some a)))"

text \<open>The node that the \<open>add_node\<close> tool constructs, and the grandparent it looks up.\<close>

definition created_node :: "string \<Rightarrow> string \<Rightarrow> string \<Rightarrow> string \<Rightarrow> real \<times> real \<Rightarrow> node" where
  "created_node new_id pid t nt pos =
     (SimpleMindNode (Some new_id) t)
        \<lparr>n_parent_id := Some pid, n_x := fst pos, n_y := snd pos,
         n_notes := nt, n_guid := ''GENERATED_'' @ new_id\<rparr>"

abbreviation grandparent_of :: "state \<Rightarrow> addr \<Rightarrow> node option" where
  "grandparent_of s p \<equiv>
     map_option (\<lambda>g. fst s ! g)
       (if n_parent_id (fst s ! p) \<noteq> sentinel then get_node (snd s) (n_parent_id (fst s ! p)) else None)"

text \<open>Maps built the way the tests and examples build them: a fresh
  \<open>SimpleMindMap\<close>, then \<open>add_node(SimpleMindNode(...))\<close> for each node in turn.\<close>

definition insert_new :: "node \<Rightarrow> state \<Rightarrow> state" where
  "insert_new n s = (let (a, h') = new_object n (fst s) in add_node a (h', snd s))"

definition build :: "string \<Rightarrow> node list \<Rightarrow> state" where
  "build title ns = fold insert_new ns ([], SimpleMindMap title)"

definition topic_node :: "string \<Rightarrow> string \<Rightarrow> string \<Rightarrow> real \<Rightarrow> real \<Rightarrow> node" where
  "topic_node i p t x y = (SimpleMindNode (Some i) t)\<lparr>n_parent_id := Some p, n_x := x, n_y := y\<rparr>"

definition ex_branch :: state where
  "ex_branch = build ''Test Map''
     [topic_node ''0'' ''-1'' ''Root'' 0 0, topic_node ''1'' ''0'' ''A'' 100 0,
      topic_node ''2'' ''1'' ''B'' 200 0]"

text \<open>A node without its children list: what the unchanged fields of an object are.\<close>

definition payload :: "node \<Rightarrow> node" where
  "payload n = n\<lparr>n_children := []\<rparr>"

text \<open>Example maps.\<close>

definition ex_pair :: state where
  "ex_pair = build ''Test Map''
     [topic_node ''0'' ''-1'' ''Root'' 0 0, topic_node ''1'' ''0'' ''Child'' 100 0]"

definition ex_pair_dup :: state where
  "ex_pair_dup = (snd (new_object (topic_node ''1'' ''0'' ''Other'' 5 5) (fst ex_pair)), snd ex_pair)"

definition ex_named :: state where
  "ex_named = build ''Test Map''
     [topic_node ''0'' ''-1'' ''Root'' 0 0, topic_node ''abc'' ''0'' ''Child'' 100 0]"

definition position :: "node \<Rightarrow> real \<times> real" where
  "position n = (n_x n, n_y n)"

text \<open>The parent chain of a node: the objects the loop of \<open>get_node_path\<close> visits when
  it stops, which it does at a node whose \<open>parent_id\<close> is the sentinel or does not
  resolve.\<close>

inductive chain :: "state \<Rightarrow> addr \<Rightarrow> addr list \<Rightarrow> bool" where
  at_root: "n_parent_id (fst s ! a) = sentinel \<Longrightarrow> chain s a [a]"
| dangling: "n_parent_id (fst s ! a) \<noteq> sentinel \<Longrightarrow>
     get_node (snd s) (n_parent_id (fst s ! a)) = None \<Longrightarrow> chain s a [a]"
| up: "n_parent_id (fst s ! a) \<noteq> sentinel \<Longrightarrow>
     get_node (snd s) (n_parent_id (fst s ! a)) = Some p \<Longrightarrow> chain s p as \<Longrightarrow>
     chain s a (a # as)"

definition path_entry :: "heap \<Rightarrow> addr \<Rightarrow> string option \<times> string" where
  "path_entry h a = (n_id (h ! a), n_text (h ! a))"

definition ex_cycle :: state where
  "ex_cycle = build ''Test Map''
     [topic_node ''1'' ''2'' ''A'' 0 0, topic_node ''2'' ''1'' ''B'' 100 0]"

definition ex_dangling :: state where
  "ex_dangling = build ''Test Map''
     [topic_node ''0'' ''-1'' ''Root'' 0 0, topic_node ''5'' ''4'' ''Lost'' 100 0,
      topic_node ''6'' ''5'' ''Leaf'' 200 0]"

subsection \<open>Decimal text of floats\<close>

text \<open>\<open>f"{v:.2f}"\<close>: the value rounded to two decimals (ties to even, on the exact
  value) and written with sign, integer digits, point and two digits.\<close>

definition round_half_even :: "real \<Rightarrow> int" where
  "round_half_even r =
     (let f = \<lfloor>r\<rfloor>; d = r - of_int f
      in if d < 1 / 2 then f else if d > 1 / 2 then f + 1
         else if even f then f else f + 1)"

definition fmt2 :: "real \<Rightarrow> string" where
  "fmt2 v =
     (let a = nat \<bar>round_half_even (v * 100)\<bar>
      in (if v < 0 then ''-'' else []) @ str_nat (a div 100) @ ''.''
           @ [digit_char (a mod 100 div 10), digit_char (a mod 10)])"

text \<open>\<open>float(s)\<close> for decimal literals: white space is stripped, then an optional sign,
  digits with an optional point and fraction, and an optional exponent.  The special
  values \<open>inf\<close> and \<open>nan\<close> have no real number and are not modelled.\<close>

definition split_at :: "(char \<Rightarrow> bool) \<Rightarrow> string \<Rightarrow> string \<times> string option" where
  "split_at P s =
     (case dropWhile (\<lambda>c. \<not> P c) s of
        [] \<Rightarrow> (s, None)
      | _ # r \<Rightarrow> (takeWhile (\<lambda>c. \<not> P c) s, Some r))"

definition unsigned :: "string \<Rightarrow> bool \<times> string" where
  "unsigned t =
     (if t \<noteq> [] \<and> hd t = CHR ''-'' then (True, tl t)
      else if t \<noteq> [] \<and> hd t = CHR ''+'' then (False, tl t) else (False, t))"

definition digits_val :: "string \<Rightarrow> nat" where
  "digits_val s = nat_of_digits (filter is_digit s)"

definition float_of_text :: "string \<Rightarrow> real option" where
  "float_of_text s =
    (let (neg, body) = unsigned (strip s);
         (mant, ex) = split_at (\<lambda>c. c = CHR ''e'' \<or> c = CHR ''E'') body;
         (ip, fp) = split_at (\<lambda>c. c = CHR ''.'') mant;
         mant_ok = (case fp of
                      None \<Rightarrow> digits_ok False ip
                    | Some f \<Rightarrow> (ip = [] \<or> digits_ok False ip) \<and> (f = [] \<or> digits_ok False f)
                                 \<and> \<not> (ip = [] \<and> f = []));
         ex_ok = (case ex of None \<Rightarrow> True | Some e \<Rightarrow> digits_ok False (snd (unsigned e)));
         frac = (case fp of None \<Rightarrow> 0
                 | Some f \<Rightarrow> real (digits_val f) / 10 ^ length (filter is_digit f));
         scale = (case ex of None \<Rightarrow> 1
                  | Some e \<Rightarrow> (if fst (unsigned e) then 1 / 10 ^ digits_val (snd (unsigned e))
                               else 10 ^ digits_val (snd (unsigned e))))
     in if mant_ok \<and> ex_ok
        then Some ((if neg then - 1 else 1) * (real (digits_val ip) + frac) * scale)
        else None)"

definition py_float :: "string \<Rightarrow> pyexc + real" where
  "py_float s = (case float_of_text s of None \<Rightarrow> Inl ValueError | Some v \<Rightarrow> Inr v)"

section \<open>The codec of simplemind\_parser.py\<close>

text \<open>
  An \<open>.smmx\<close> file is a ZIP archive.  The model starts from the archive's content: the
  element tree of the entry \<open>document/mindmap.xml\<close> (\<open>None\<close> when the entry is missing)
  and the other entries by name.  Compression and the textual form of XML belong to the
  libraries and are not modelled, and neither are the checks on the file path made
  before the archive is opened.

  An element has a tag, attributes in insertion order, an optional text and children.
  While a tree is built an attribute may hold any Python value, here a string or
  \<open>None\<close>; \<open>ET.tostring\<close> refuses a value that is not a string.
\<close>

datatype 'v xml = Elem (x_tag: string) (x_attrib: "(string \<times> 'v) list")
  (x_text: "string option") (x_children: "'v xml list")

record archive =
  a_mindmap_xml :: "string xml option"
  a_files :: "(string \<times> string) list"

definition xget :: "string xml \<Rightarrow> string \<Rightarrow> string \<Rightarrow> string" where
  "xget e k d = (case map_of (x_attrib e) k of Some v \<Rightarrow> v | None \<Rightarrow> d)"

definition xfind :: "'v xml \<Rightarrow> string \<Rightarrow> 'v xml option" where
  "xfind e t = List.find (\<lambda>c. x_tag c = t) (x_children e)"

definition xfindall :: "'v xml \<Rightarrow> string \<Rightarrow> 'v xml list" where
  "xfindall e t = filter (\<lambda>c. x_tag c = t) (x_children e)"

text \<open>The descendants of an element in document order, for the paths \<open>.//tag\<close>.\<close>

fun descendants :: "'v xml \<Rightarrow> 'v xml list" where
  "descendants (Elem t as x cs) = concat (map (\<lambda>c. c # descendants c) cs)"

definition xfind_desc :: "'v xml \<Rightarrow> string \<Rightarrow> 'v xml option" where
  "xfind_desc e t = List.find (\<lambda>c. x_tag c = t) (descendants e)"

definition xfindall_desc :: "'v xml \<Rightarrow> string \<Rightarrow> 'v xml list" where
  "xfindall_desc e t = filter (\<lambda>c. x_tag c = t) (descendants e)"

definition tostring :: "string option xml \<Rightarrow> pyexc + string xml" where
  "tostring e = (if None \<in> set_xml e then Inl TypeError else Inr (map_xml the e))"

definition endswith :: "string \<Rightarrow> string \<Rightarrow> bool" where
  "endswith s suf = prefix (rev suf) (rev s)"

text \<open>\<open>Path(name).stem\<close>.\<close>

definition path_stem :: "string \<Rightarrow> string" where
  "path_stem p =
     (let name = rev (takeWhile (\<lambda>c. c \<noteq> CHR ''/'') (rev p));
          ext = takeWhile (\<lambda>c. c \<noteq> CHR ''.'') (rev name)
      in if CHR ''.'' \<in> set name \<and> 0 < length name - length ext - 1 \<and> ext \<noteq> []
         then take (length name - length ext - 1) name else name)"

subsection \<open>Decoder\<close>

text \<open>The body of the loop over the topics: build the node from one record, then
  \<open>add_node\<close>.\<close>

definition read_topic :: "string xml \<Rightarrow> state \<Rightarrow> pyexc + state" where
  "read_topic topic s =
    (case py_float (xget topic ''x'' ''0'') of
       Inl e \<Rightarrow> Inl e
     | Inr x \<Rightarrow>
      (case py_float (xget topic ''y'' ''0'') of
         Inl e \<Rightarrow> Inl e
       | Inr y \<Rightarrow>
          (let notes = (case xfind topic ''note'' of
                          Some note_elem \<Rightarrow> (case x_text note_elem of Some t \<Rightarrow> t | None \<Rightarrow> [])
                        | None \<Rightarrow> []);
               url_link = (case xfind topic ''link'' of
                          Some link_elem \<Rightarrow> xget link_elem ''urllink'' [] | None \<Rightarrow> []);
               layout_elem = xfind topic ''layout'';
               (a, h) = new_object
                 ((SimpleMindNode (map_of (x_attrib topic) ''id'') (xget topic ''text'' []))
                    \<lparr>n_parent_id := map_of (x_attrib topic) ''parent'', n_x := x, n_y := y,
                     n_notes := notes, n_guid := xget topic ''guid'' [],
                     n_palette := xget topic ''palette'' [],
                     n_colorinfo := xget topic ''colorinfo'' [],
                     n_icon := xget topic ''icon'' [], n_url_link := url_link,
                     n_layout_mode := (case layout_elem of Some l \<Rightarrow> xget l ''mode'' [] | None \<Rightarrow> []),
                     n_layout_direction :=
                       (case layout_elem of Some l \<Rightarrow> xget l ''direction'' [] | None \<Rightarrow> []),
                     n_layout_flow := (case layout_elem of Some l \<Rightarrow> xget l ''flow'' [] | None \<Rightarrow> [])\<rparr>)
                 (fst s);
               h' = (case xfind topic ''parent-relation'' of
                       Some pr \<Rightarrow> h[a := (h ! a)\<lparr>n_parent_relation_guid := xget pr ''guid'' []\<rparr>]
                     | None \<Rightarrow> h)
           in Inr (add_node a (h', snd s)))))"

fun read_topics :: "string xml list \<Rightarrow> state \<Rightarrow> pyexc + state" where
  "read_topics [] s = Inr s"
| "read_topics (topic # topics) s =
     (case read_topic topic s of Inl e \<Rightarrow> Inl e | Inr s' \<Rightarrow> read_topics topics s')"

definition read_meta :: "string xml \<Rightarrow> mindmap \<Rightarrow> pyexc + mindmap" where
  "read_meta meta m =
    (let m1 = (case xfind meta ''title'' of
                 Some e \<Rightarrow> m\<lparr>m_title := xget e ''text'' ''Untitled''\<rparr> | None \<Rightarrow> m);
         m2 = (case xfind meta ''guid'' of
                 Some e \<Rightarrow> m1\<lparr>m_guid := xget e ''guid'' []\<rparr> | None \<Rightarrow> m1);
         m3 = (case xfind meta ''style'' of
                 Some e \<Rightarrow> m2\<lparr>m_style := xget e ''key'' ''system.bright-palette''\<rparr> | None \<Rightarrow> m2);
         images_flag = (\<lambda>mm. case xfind meta ''images'' of
                 Some e \<Rightarrow> mm\<lparr>m_contains_images :=
                             (lower (xget e ''containsImages'' ''false'') = ''true'')\<rparr>
               | None \<Rightarrow> mm)
     in case xfind meta ''scrollstate'' of
          None \<Rightarrow> Inr (images_flag m3)
        | Some e \<Rightarrow>
           (case py_int (Some (xget e ''zoom'' ''100'')) of
              Inl err \<Rightarrow> Inl err
            | Inr z \<Rightarrow>
              (case py_float (xget e ''x'' ''0'') of
                 Inl err \<Rightarrow> Inl err
               | Inr sx \<Rightarrow>
                 (case py_float (xget e ''y'' ''0'') of
                    Inl err \<Rightarrow> Inl err
                  | Inr sy \<Rightarrow>
                     Inr (images_flag (m3\<lparr>m_zoom := z, m_scroll_x := sx, m_scroll_y := sy\<rparr>))))))"

definition read_relations :: "string xml \<Rightarrow> relation list" where
  "read_relations tree =
     (case xfind_desc tree ''relations'' of
        None \<Rightarrow> []
      | Some rs \<Rightarrow> map (\<lambda>r. \<lparr>r_guid = xget r ''guid'' [], r_source = xget r ''source'' [],
                               r_target = xget r ''target'' []\<rparr>)
                       (xfindall rs ''relation''))"

definition read_images :: "(string \<times> string) list \<Rightarrow> (string \<times> string) list" where
  "read_images files =
     fold (\<lambda>(name, data) images.
             if prefix ''images/'' name
                \<and> (endswith name ''.png'' \<or> endswith name ''.jpg'' \<or> endswith name ''.jpeg'')
             then AList.update (path_stem name) data images else images)
          files []"

definition read_mindmap :: "archive \<Rightarrow> pyexc + state" where
  "read_mindmap ar =
    (case a_mindmap_xml ar of
       None \<Rightarrow> Inl KeyError
     | Some tree \<Rightarrow>
        (let m0 = (SimpleMindMap ''New Mind Map'')\<lparr>m_images := read_images (a_files ar)\<rparr>
         in case (case xfind_desc tree ''meta'' of
                    Some meta \<Rightarrow> read_meta meta m0 | None \<Rightarrow> Inr m0) of
              Inl e \<Rightarrow> Inl e
            | Inr m1 \<Rightarrow>
               (case read_topics (xfindall_desc tree ''topic'') ([], m1) of
                  Inl e \<Rightarrow> Inl e
                | Inr s \<Rightarrow> Inr (fst s, (snd s)\<lparr>m_relations := read_relations tree\<rparr>))))"

subsection \<open>Encoder\<close>

text \<open>\<open>elem.set(k, v)\<close> and \<open>ET.SubElement\<close> with a list of \<open>set\<close> calls.\<close>

definition xset :: "string \<Rightarrow> 'v \<Rightarrow> 'v xml \<Rightarrow> 'v xml" where
  "xset k v e = Elem (x_tag e) (AList.update k v (x_attrib e)) (x_text e) (x_children e)"

definition element :: "string \<Rightarrow> (string \<times> 'v) list \<Rightarrow> 'v xml list \<Rightarrow> 'v xml" where
  "element t sets cs = Elem t (fold (\<lambda>(k, v). AList.update k v) sets []) None cs"

text \<open>The element that \<open>add_topic_element\<close> makes for one node, with its sub-elements.\<close>

definition topic_element :: "node \<Rightarrow> string option xml" where
  "topic_element n =
     element ''topic''
       ([(''id'', n_id n), (''parent'', n_parent_id n), (''guid'', Some (n_guid n)),
         (''x'', Some (fmt2 (n_x n))), (''y'', Some (fmt2 (n_y n)))]
        @ (if n_palette n \<noteq> [] then [(''palette'', Some (n_palette n))] else [])
        @ (if n_colorinfo n \<noteq> [] then [(''colorinfo'', Some (n_colorinfo n))] else [])
        @ (if n_icon n \<noteq> [] then [(''icon'', Some (n_icon n))] else [])
        @ [(''text'', Some (n_text n)), (''textfmt'', Some ''plain'')])
       ((if n_parent_relation_guid n \<noteq> []
         then [element ''parent-relation'' [(''guid'', Some (n_parent_relation_guid n))] []] else [])
        @ (if n_url_link n \<noteq> []
           then [element ''link'' [(''urllink'', Some (n_url_link n))] []] else [])
        @ (if n_notes n \<noteq> [] then [Elem ''note'' [] (Some (n_notes n)) []] else [])
        @ (if n_layout_mode n \<noteq> []
           then [element ''layout''
                   ([(''mode'', Some (n_layout_mode n))]
                    @ (if n_layout_direction n \<noteq> []
                       then [(''direction'', Some (n_layout_direction n))] else [])
                    @ (if n_layout_flow n \<noteq> []
                       then [(''flow'', Some (n_layout_flow n))] else [])) []]
           else []))"

text \<open>\<open>add_topic_element\<close> appends the node's element to \<open>topics\<close> and then recurses
  into the children; the result is the list of elements appended.  The first argument
  bounds the recursion depth.\<close>

fun add_topic_element :: "nat \<Rightarrow> heap \<Rightarrow> addr \<Rightarrow> string option xml list option" where
  "add_topic_element 0 h a = None"
| "add_topic_element (Suc k) h a =
     fold (\<lambda>child acc. case acc of None \<Rightarrow> None
                        | Some ts \<Rightarrow> (case add_topic_element k h child of
                                        None \<Rightarrow> None | Some cs \<Rightarrow> Some (ts @ cs)))
          (n_children (h ! a)) (Some [topic_element (h ! a)])"

definition write_meta :: "state \<Rightarrow> string option xml" where
  "write_meta s =
    (let h = fst s; m = snd s in
     element ''meta'' []
       ([element ''guid'' [(''guid'', Some (if m_guid m \<noteq> [] then m_guid m else ''GENERATED_GUID''))] [],
         element ''title'' [(''text'', Some (m_title m))] []]
        @ (if m_contains_images m \<or> m_images m \<noteq> []
           then [element ''images'' [(''containsImages'', Some ''true'')] []] else [])
        @ [element ''style'' [(''key'', Some (m_style m))] [],
           element ''auto-numbering'' [(''style'', Some ''disabled'')] [],
           element ''scrollstate''
             [(''zoom'', Some (py_str (m_zoom m))), (''x'', Some (fmt2 (m_scroll_x m))),
              (''y'', Some (fmt2 (m_scroll_y m)))] []]
        @ (case m_root_node m of
             None \<Rightarrow> []
           | Some r \<Rightarrow>
               [element ''selection''
                  [(''guid'', Some (n_guid (h ! r))), (''type'', Some ''node''), (''id'', n_id (h ! r))] [],
                element ''main-centraltheme'' [(''id'', n_id (h ! r))] []])))"

definition write_mindmap :: "nat \<Rightarrow> state \<Rightarrow> pyexc + archive" where
  "write_mindmap rlimit s =
    (let h = fst s; m = snd s;
         root_nodes = filter (\<lambda>a. n_parent_id (h ! a) = sentinel) (map snd (m_nodes m))
     in case fold (\<lambda>root_node acc. case acc of None \<Rightarrow> None
                     | Some ts \<Rightarrow> (case add_topic_element rlimit h root_node of
                                     None \<Rightarrow> None | Some cs \<Rightarrow> Some (ts @ cs)))
                  root_nodes (Some []) of
          None \<Rightarrow> Inl RecursionError
        | Some topics \<Rightarrow>
           (case tostring
              (element ''simplemind-mindmaps''
                 [(''doc-version'', Some ''3''), (''generator'', Some ''SimpleMindMCP''),
                  (''gen-version'', Some ''1.0.0'')]
                 [element ''mindmap'' []
                    ([write_meta s, element ''topics'' [] topics]
                     @ (if m_relations m \<noteq> []
                        then [element ''relations'' []
                                (map (\<lambda>rel. element ''relation''
                                        [(''guid'', Some (r_guid rel)), (''source'', Some (r_source rel)),
                                         (''target'', Some (r_target rel))] [])
                                     (m_relations m))]
                        else [])
                     @ [element ''node-groups'' [] []])]) of
              Inl e \<Rightarrow> Inl e
            | Inr doc \<Rightarrow>
                Inr \<lparr>a_mindmap_xml = Some doc,
                     a_files = map (\<lambda>(image_hash, image_data).
                                     (''images/'' @ image_hash @ ''.png'', image_data))
                                   (m_images m)\<rparr>))"

text \<open>An archive whose topic list names a child before its parent.\<close>

definition ex_forward :: archive where
  "ex_forward =
     \<lparr>a_mindmap_xml = Some
        (Elem ''simplemind-mindmaps'' [(''doc-version'', ''3'')] None
          [Elem ''mindmap'' [] None
            [Elem ''topics'' [] None
              [Elem ''topic'' [(''id'', ''1''), (''parent'', ''0''), (''x'', ''100.00''),
                               (''y'', ''0.00''), (''text'', ''Child'')] None [],
               Elem ''topic'' [(''id'', ''0''), (''parent'', ''-1''), (''x'', ''0.00''),
                               (''y'', ''0.00''), (''text'', ''Root'')] None []]]]),
      a_files = []\<rparr>"

section \<open>Well-formed maps\<close>

text \<open>
  The invariants of the document model say that the children lists form a tree (a
  forest, when there are floating roots) over exactly the objects of the mapping.  They
  are stated with a witness: a forest of addresses that the children lists follow.
\<close>

datatype 'a rtree = RT (label: 'a) (kids: "'a rtree list")

fun flat :: "'a rtree \<Rightarrow> 'a list" where
  "flat (RT a ts) = a # concat (map flat ts)"

abbreviation flats :: "'a rtree list \<Rightarrow> 'a list" where
  "flats ts \<equiv> concat (map flat ts)"

fun height :: "'a rtree \<Rightarrow> nat" where
  "height (RT a ts) = Suc (foldr (\<lambda>t m. max (height t) m) ts 0)"

text \<open>The children list of every node of the tree lists the roots of its subtrees, and
  each of these children names the node as its parent.\<close>

fun is_tree :: "heap \<Rightarrow> addr rtree \<Rightarrow> bool" where
  "is_tree h (RT a ts) =
     (a < length h \<and> n_children (h ! a) = map label ts
      \<and> (\<forall>t \<in> set ts. n_parent_id (h ! label t) = n_id (h ! a) \<and> is_tree h t))"

text \<open>\<open>wf_map s F\<close>: the trees of \<open>F\<close> are in the store, no object occurs twice in them,
  their objects are exactly the values of the mapping, every object is stored under
  its own id, ids are unique, and the roots of \<open>F\<close> are the objects whose parent is the
  sentinel, in the order of the mapping.\<close>

definition wf_map :: "state \<Rightarrow> addr rtree list \<Rightarrow> bool" where
  "wf_map s F \<longleftrightarrow>
     list_all (is_tree (fst s)) F
     \<and> distinct (flats F)
     \<and> set (flats F) = snd ` set (m_nodes (snd s))
     \<and> distinct (map fst (m_nodes (snd s)))
     \<and> list_all (\<lambda>(k, a). n_id (fst s ! a) = k) (m_nodes (snd s))
     \<and> map label F = filter (\<lambda>a. n_parent_id (fst s ! a) = sentinel) (map snd (m_nodes (snd s)))"

text \<open>The subtree below an object, and the forest without it.\<close>

fun subtrees :: "'a rtree \<Rightarrow> 'a rtree list" where
  "subtrees (RT a ts) = RT a ts # concat (map subtrees ts)"

definition subtree_at :: "'a rtree list \<Rightarrow> 'a \<Rightarrow> 'a rtree option" where
  "subtree_at F a = List.find (\<lambda>t. label t = a) (concat (map subtrees F))"

fun prune :: "'a \<Rightarrow> 'a rtree \<Rightarrow> 'a rtree" where
  "prune a (RT b ts) = RT b (map (prune a) (filter (\<lambda>t. label t \<noteq> a) ts))"

definition prunes :: "'a \<Rightarrow> 'a rtree list \<Rightarrow> 'a rtree list" where
  "prunes a F = map (prune a) (filter (\<lambda>t. label t \<noteq> a) F)"

definition ids_of :: "heap \<Rightarrow> addr list \<Rightarrow> string option set" where
  "ids_of h as = (\<lambda>a. n_id (h ! a)) ` set as"

abbreviation forest_subtrees :: "'a rtree list \<Rightarrow> 'a rtree list" where
  "forest_subtrees F \<equiv> concat (map subtrees F)"

text \<open>The forest with a new leaf \<open>c\<close> appended below \<open>p\<close>.\<close>

fun graft :: "'a \<Rightarrow> 'a \<Rightarrow> 'a rtree \<Rightarrow> 'a rtree" where
  "graft p c (RT b us) = RT b (map (graft p c) us @ (if b = p then [RT c []] else []))"

section \<open>Sequences of tool calls\<close>

text \<open>
  The three mutating tools as operations on the document in memory: \<open>insertChild\<close>,
  \<open>updateNode\<close> and \<open>deleteNode\<close> of the document model are the bodies of the tools
  \<open>add_node\<close>, \<open>update_node\<close> and \<open>delete_node\<close> between \<open>read_mindmap\<close> and
  \<open>write_mindmap\<close>.  A call that fails returns before \<open>write_mindmap\<close>, so the document
  stays as it was.
\<close>

datatype operation =
    InsertChild string string string
  | UpdateNode string "string option" "string option"
  | DeleteNode string

definition apply_op :: "nat \<Rightarrow> operation \<Rightarrow> state \<Rightarrow> state" where
  "apply_op rlimit op s =
    (case op of
       InsertChild parent_id text notes \<Rightarrow>
         (case handle_add_node parent_id text notes s of Inr r \<Rightarrow> fst r | Inl e \<Rightarrow> s)
     | UpdateNode node_id text notes \<Rightarrow>
         (case handle_update_node node_id text notes s of Inr s' \<Rightarrow> s' | Inl e \<Rightarrow> s)
     | DeleteNode node_id \<Rightarrow>
         (case handle_delete_node rlimit node_id s of Inr r \<Rightarrow> fst r | Inl e \<Rightarrow> s))"

text \<open>The invariants of the data model.  The cache of children is consistent with the
  parent ids: among the objects of the mapping, \<open>n\<close> is in the children list of \<open>p\<close>
  exactly when the parent id of \<open>n\<close> is the id of \<open>p\<close>.\<close>

definition consistent :: "state \<Rightarrow> bool" where
  "consistent s \<longleftrightarrow>
     (\<forall>p \<in> snd ` set (m_nodes (snd s)). \<forall>n \<in> snd ` set (m_nodes (snd s)).
        (n \<in> set (n_children (fst s ! p))) = (n_parent_id (fst s ! n) = n_id (fst s ! p)))"

text \<open>Every object of the mapping is reached from the root through children lists.\<close>

inductive reachable :: "heap \<Rightarrow> addr \<Rightarrow> addr \<Rightarrow> bool" for h r where
  start: "reachable h r r"
| child: "reachable h r a \<Longrightarrow> c \<in> set (n_children (h ! a)) \<Longrightarrow> reachable h r c"

definition all_reachable :: "state \<Rightarrow> bool" where
  "all_reachable s \<longleftrightarrow>
     (\<exists>r. m_root_node (snd s) = Some r
          \<and> (\<forall>n \<in> snd ` set (m_nodes (snd s)). reachable (fst s) r n))"

text \<open>A conformant document has one root: the children lists form one tree over the
  objects of the mapping, and \<open>root_node\<close> is its root.\<close>

definition tree_shaped :: "state \<Rightarrow> bool" where
  "tree_shaped s \<longleftrightarrow> (\<exists>t. wf_map s [t] \<and> m_root_node (snd s) = Some (label t))"

definition doc_inv :: "state \<Rightarrow> bool" where
  "doc_inv s \<longleftrightarrow> tree_shaped s \<and> consistent s"

text \<open>The id of the root is not the text of a negative integer.\<close>

definition root_id_nonneg :: "state \<Rightarrow> bool" where
  "root_id_nonneg s \<longleftrightarrow>
     (\<forall>r v. m_root_node (snd s) = Some r \<and> py_int (n_id (fst s ! r)) = Inr v \<longrightarrow> 0 \<le> v)"

text \<open>What every tool call keeps: the tree, no object stored under the sentinel, and
  the root's id.\<close>

definition op_inv :: "state \<Rightarrow> bool" where
  "op_inv s \<longleftrightarrow> tree_shaped s \<and> sentinel \<notin> fst ` set (m_nodes (snd s)) \<and> root_id_nonneg s"

text \<open>A conformant document whose root has the id \<open>-2\<close>.\<close>

definition ex_neg :: state where
  "ex_neg = build ''Test Map'' [topic_node ''-2'' ''-1'' ''Root'' 0 0]"

subsection \<open>A file in another order\<close>


subsection \<open>Containment without regard to case\<close>









section \<open>Verified properties\<close>

subsection \<open>Search\<close>



subsection \<open>The add\_node tool\<close>

lemma ints_of_Inr: "ints_of ks = Inr vs \<Longrightarrow> map py_int ks = map Inr vs"
  by (induction ks arbitrary: vs) (auto split: sum.splits)

lemma ints_of_Inl: "ints_of ks = Inl e \<Longrightarrow> \<exists>k\<in>set ks. py_int k = Inl e"
  by (induction ks) (auto split: sum.splits)

lemma py_int_exc: "py_int k = Inl x \<Longrightarrow> x = ValueError \<or> x = TypeError"
  by (auto simp: py_int_def split: option.splits)

lemma py_max_Max: "vs \<noteq> [] \<Longrightarrow> py_max vs = Inr (Max (set vs))"
  by (cases vs) (simp_all add: py_max_def Max.set_eq_fold del: set_simps)

lemma handle_add_node_unfold:
  "handle_add_node pid t nt (h, m) =
    (case get_node m (Some pid) of
       None \<Rightarrow> Inl NotFoundError
     | Some p \<Rightarrow>
        (case ints_of (map fst (m_nodes m)) of
           Inl e \<Rightarrow> Inl (Uncaught e)
         | Inr vs \<Rightarrow>
            (case py_max vs of
               Inl e \<Rightarrow> Inl (Uncaught e)
             | Inr mx \<Rightarrow>
                 Inr (add_node (length h)
                        (h @ [created_node (py_str (mx + 1)) pid t nt
                                (new_position (grandparent_of (h, m) p) (h ! p))], m),
                      py_str (mx + 1)))))"
  unfolding handle_add_node_def Let_def new_object_def created_node_def SimpleMindNode_def
  by (simp split: option.split sum.split)

lemma handle_add_node_Inl:
  assumes "get_node m (Some pid) = Some p"
    and "handle_add_node pid t nt (h, m) = Inl e"
  shows "\<exists>x. ints_of (map fst (m_nodes m)) = Inl x \<and> e = Uncaught x"
proof (cases "ints_of (map fst (m_nodes m))")
  case (Inl x)
  then show ?thesis using assms by (simp add: handle_add_node_unfold)
next
  case (Inr vs)
  from assms have "m_nodes m \<noteq> []" by (auto simp: get_node_def)
  with ints_of_Inr[OF Inr] have ne: "vs \<noteq> []" by auto
  show ?thesis using assms Inr ne by (simp add: handle_add_node_unfold py_max_Max)
qed

lemma handle_add_node_Inr:
  assumes "get_node m (Some pid) = Some p"
    and "handle_add_node pid t nt (h, m) = Inr (s', new_id)"
  shows "\<exists>vs. ints_of (map fst (m_nodes m)) = Inr vs \<and> vs \<noteq> [] \<and>
           new_id = py_str (Max (set vs) + 1) \<and>
           s' = add_node (length h)
                  (h @ [created_node new_id pid t nt
                         (new_position (grandparent_of (h, m) p) (h ! p))], m)"
proof (cases "ints_of (map fst (m_nodes m))")
  case (Inl x)
  then show ?thesis using assms by (simp add: handle_add_node_unfold)
next
  case (Inr vs)
  from assms have "m_nodes m \<noteq> []" by (auto simp: get_node_def)
  with ints_of_Inr[OF Inr] have ne: "vs \<noteq> []" by auto
  show ?thesis using assms Inr ne by (auto simp add: handle_add_node_unfold py_max_Max)
qed

lemmas ex_simps = build_def insert_new_def topic_node_def SimpleMindNode_def SimpleMindMap_def
  new_object_def add_node_def get_node_def

lemma payload_children_update [simp]: "payload (n\<lparr>n_children := cs\<rparr>) = payload n"
  by (simp add: payload_def)

lemma payload_nth_update [simp]:
  "payload (h[p := (h ! p)\<lparr>n_children := cs\<rparr>] ! i) = payload (h ! i)"
  by (cases "p < length h") (auto simp: nth_list_update list_update_beyond)

lemma add_node_payload [simp]: "payload (fst (add_node a (h, m)) ! i) = payload (h ! i)"
  by (simp add: add_node_def Let_def split: option.splits)

lemma add_node_length [simp]: "length (fst (add_node a (h, m))) = length h"
  by (simp add: add_node_def Let_def split: option.splits)

lemma payload_sel [simp]:
  "n_x (payload n) = n_x n" "n_y (payload n) = n_y n" "n_id (payload n) = n_id n"
  "n_text (payload n) = n_text n" "n_notes (payload n) = n_notes n"
  "n_parent_id (payload n) = n_parent_id n"
  by (simp_all add: payload_def)

lemma new_pos:
  assumes "get_node m (Some pid) = Some p"
    and "handle_add_node pid t nt (h, m) = Inr (s', new_id)"
  shows "(n_x (fst s' ! length h), n_y (fst s' ! length h)) =
           new_position (grandparent_of (h, m) p) (h ! p)"
proof -
  define pos where "pos = new_position (grandparent_of (h, m) p) (h ! p)"
  define n where "n = created_node new_id pid t nt pos"
  from handle_add_node_Inr[OF assms]
  obtain vs where "s' = add_node (length h) (h @ [n], m)"
    unfolding n_def pos_def by (elim exE conjE)
  then have s': "s' = add_node (length h) (h @ [n], m)" .
  have "payload (fst s' ! length h) = payload n"
    by (simp only: s' add_node_payload nth_append_length)
  then have "n_x (fst s' ! length h) = n_x n" "n_y (fst s' ! length h) = n_y n"
    by (metis payload_sel(1), metis payload_sel(2))
  moreover have "n_x n = fst pos" "n_y n = snd pos"
    by (simp_all add: n_def created_node_def)
  ultimately show ?thesis unfolding pos_def[symmetric] by simp
qed

subsection \<open>Duplicate ids and updates\<close>

lemma nth_children_update:
  "n_children (h[q := (h ! q)\<lparr>n_children := cs\<rparr>] ! p) =
     (if p = q \<and> q < length h then cs else n_children (h ! p))"
  by (cases "q < length h") (auto simp: nth_list_update list_update_beyond)

text \<open>
  C10.  \<open>add_node\<close> does not reject a duplicate id.  When the mapping holds node object
  \<open>a\<close> under id \<open>X\<close>, \<open>a\<close> is in the children list of \<open>p\<close>, and a different object
  \<open>a'\<close> with the same id is added, the call succeeds (the function is total), the
  mapping entry for \<open>X\<close> becomes \<open>a'\<close>, and \<open>a\<close> is still in the children list of
  \<open>p\<close>: a child of \<open>p\<close> whose id no longer resolves to it.
\<close>

theorem add_node_duplicate_id:
  assumes "a < length h" and "a' < length h" and "a' \<noteq> a"
    and "get_node m X = Some a" and "n_id (h ! a) = X" and "n_id (h ! a') = X"
    and "a \<in> set (n_children (h ! p))" and "p < length h"
  shows "get_node (snd (add_node a' (h, m))) X = Some a'
       \<and> a \<in> set (n_children (fst (add_node a' (h, m)) ! p))
       \<and> n_id (fst (add_node a' (h, m)) ! a) = X
       \<and> get_node (snd (add_node a' (h, m))) (n_id (fst (add_node a' (h, m)) ! a)) \<noteq> Some a"
proof -
  let ?s = "add_node a' (h, m)"
  have nodes: "m_nodes (snd ?s) = AList.update X a' (m_nodes m)"
    using assms(6) by (simp add: add_node_def Let_def split: option.splits)
  then have g: "get_node (snd ?s) X = Some a'"
    by (simp add: get_node_def update_conv')
  have "payload (fst ?s ! a) = payload (h ! a)" by simp
  then have i: "n_id (fst ?s ! a) = X" using assms(5) by (metis payload_sel(3))
  have c: "a \<in> set (n_children (fst ?s ! p))"
    using assms(7,8)
    by (auto simp: add_node_def Let_def nth_children_update split: option.splits)
  show ?thesis using g i c assms(3) by simp
qed

text \<open>
  C6.  The claim asks that \<open>update_node\<close> with only \<open>notes = ""\<close> be accepted and clear
  the notes.  The handler's guard \<open>not new_text and not new_notes\<close> treats the empty
  string like a missing argument, so this call is refused before the node is looked
  up, although the later test \<open>new_notes is not None\<close> carries the comment "Allow empty
  string to clear notes".
\<close>

theorem update_node_empty_notes_rejected:
  "handle_update_node node_id None (Some []) s = Inl InvalidOperationError"
  by (simp add: handle_update_node_def truthy_def)

lemma ex_pair_dup_heap:
  "fst ex_pair_dup =
     [(topic_node ''0'' ''-1'' ''Root'' 0 0)\<lparr>n_children := [1]\<rparr>,
      topic_node ''1'' ''0'' ''Child'' 100 0, topic_node ''1'' ''0'' ''Other'' 5 5]"
  "m_nodes (snd ex_pair_dup) = [(Some ''0'', 0), (Some ''1'', 1)]"
  by (simp_all add: ex_pair_dup_def ex_pair_def ex_simps)

theorem add_node_duplicate_id_witness:
  "get_node (snd (add_node 2 ex_pair_dup)) (Some ''1'') = Some 2
   \<and> 1 \<in> set (n_children (fst (add_node 2 ex_pair_dup) ! 0))
   \<and> n_id (fst (add_node 2 ex_pair_dup) ! 1) = Some ''1''
   \<and> get_node (snd (add_node 2 ex_pair_dup)) (n_id (fst (add_node 2 ex_pair_dup) ! 1)) \<noteq> Some 1"
  using add_node_duplicate_id [of 1 "fst ex_pair_dup" 2 "snd ex_pair_dup" "Some ''1''" 0]
  unfolding prod.collapse
  by (simp add: ex_pair_dup_heap get_node_def topic_node_def SimpleMindNode_def)

text \<open>
  C9 (as amended).  When the parent exists, the \<open>add_node\<close> tool either succeeds, and
  then every existing id parses as an integer and the new id is the decimal text of
  their maximum plus one; or it fails, and then some existing id does not parse and
  the failure is the \<open>ValueError\<close> or \<open>TypeError\<close> of \<open>int()\<close> as caught by the blanket
  handler, not one of the handler's own refusals.
\<close>

theorem handle_add_node_new_id:
  assumes "get_node m (Some pid) = Some p"
  shows "case handle_add_node pid t nt (h, m) of
           Inr (s', new_id) \<Rightarrow>
             (\<exists>vs. map py_int (map fst (m_nodes m)) = map Inr vs
                   \<and> new_id = py_str (Max (set vs) + 1))
         | Inl e \<Rightarrow>
             (\<exists>k x. k \<in> set (map fst (m_nodes m)) \<and> py_int k = Inl x \<and> e = Uncaught x
                   \<and> (x = ValueError \<or> x = TypeError) \<and> e \<noteq> InvalidOperationError)"
proof (cases "handle_add_node pid t nt (h, m)")
  case (Inl e)
  from handle_add_node_Inl[OF assms Inl] obtain x where
    x: "ints_of (map fst (m_nodes m)) = Inl x" "e = Uncaught x" by blast
  from ints_of_Inl[OF x(1)] obtain k where k: "k \<in> set (map fst (m_nodes m))" "py_int k = Inl x"
    by blast
  from py_int_exc[OF k(2)] x k show ?thesis unfolding Inl by auto
next
  case (Inr r)
  obtain s' new_id where r: "r = (s', new_id)" by (cases r)
  from handle_add_node_Inr[OF assms Inr[unfolded r]] obtain vs where
    "ints_of (map fst (m_nodes m)) = Inr vs" "new_id = py_str (Max (set vs) + 1)" by blast
  with ints_of_Inr[of "map fst (m_nodes m)" vs] show ?thesis unfolding Inr r by auto
qed

lemmas int_simps = py_int_def int_of_text_def strip_def is_space_def is_digit_def
  nat_of_digits_def digit_val_def

lemma ex_named_nodes: "m_nodes (snd ex_named) = [(Some ''0'', 0), (Some ''abc'', 1)]"
  by (simp add: ex_named_def ex_simps)

text \<open>C9 as stated fails: with an id \<open>abc\<close> in the map the tool ends in the
  blanket exception handler with \<open>ValueError\<close>.\<close>

theorem handle_add_node_non_numeric_counterexample:
  "handle_add_node ''0'' ''New'' [] ex_named = Inl (Uncaught ValueError)
   \<and> handle_add_node ''0'' ''New'' [] ex_named \<noteq> Inl InvalidOperationError"
proof -
  have "handle_add_node ''0'' ''New'' [] (fst ex_named, snd ex_named) = Inl (Uncaught ValueError)"
    unfolding handle_add_node_unfold by (simp add: ex_named_nodes get_node_def int_simps)
  then show ?thesis by simp
qed

theorem handle_add_node_new_id_witness:
  "get_node (snd ex_named) (Some ''0'') = Some 0
   \<and> (case handle_add_node ''0'' ''New'' [] (fst ex_named, snd ex_named) of
         Inr (s', new_id) \<Rightarrow>
           (\<exists>vs. map py_int (map fst (m_nodes (snd ex_named))) = map Inr vs
                 \<and> new_id = py_str (Max (set vs) + 1))
       | Inl e \<Rightarrow>
           (\<exists>k x. k \<in> set (map fst (m_nodes (snd ex_named))) \<and> py_int k = Inl x \<and> e = Uncaught x
                 \<and> (x = ValueError \<or> x = TypeError) \<and> e \<noteq> InvalidOperationError))"
proof -
  have h: "get_node (snd ex_named) (Some ''0'') = Some 0"
    by (simp add: get_node_def ex_named_nodes)
  from h handle_add_node_new_id[OF h] show ?thesis by (rule conjI)
qed

lemma new_position_cong:
  assumes "map_option position g = map_option position g'"
    and "position q = position q'"
    and "length (n_children q) = length (n_children q')"
  shows "new_position g q = new_position g' q'"
proof (cases g)
  case None
  with assms(1) have "g' = None" by simp
  with None assms(2,3) show ?thesis by (simp add: new_position_def position_def)
next
  case (Some a)
  with assms(1) obtain b where b: "g' = Some b" "position a = position b" by (cases g') auto
  with Some assms(2,3) show ?thesis
    by (simp add: new_position_def position_def Let_def)
qed

lemma new_position_second_child:
  assumes "map_option position g = Some (0, 0)" and "position q = (100, 0)"
    and "length (n_children q) = 1"
  shows "new_position g q = (200, - 80)"
proof -
  from assms(1) obtain a where a: "g = Some a" "n_x a = 0" "n_y a = 0"
    by (cases g) (auto simp: position_def)
  from assms(2) have q: "n_x q = 100" "n_y q = 0" by (auto simp: position_def)
  show ?thesis using a q assms(3)
    by (simp add: new_position_def Let_def offset_mult_def)
qed

lemma add_node_nodes:
  "m_nodes (snd (add_node a (h, m))) = AList.update (n_id (h ! a)) a (m_nodes m)"
  by (simp add: add_node_def Let_def split: option.splits)

text \<open>
  C8.  If the grandparent is at (0,0), the parent at (100,0) and the parent has one
  child, the node created by the \<open>add_node\<close> tool is at (200,-80).  In general two
  runs of the tool that agree on the grandparent's position (or on its absence), on
  the parent's position and on the number of existing children place the new node at
  the same position.  The new node is the object at the end of the store, and the
  mapping holds it under the new id.
\<close>

theorem add_node_placement:
  assumes "get_node m (Some pid) = Some p"
    and "handle_add_node pid t nt (h, m) = Inr (s', new_id)"
    and "get_node m2 (Some pid2) = Some p2"
    and "handle_add_node pid2 t2 nt2 (h2, m2) = Inr (s2', new_id2)"
  shows "(map_option position (grandparent_of (h, m) p) = Some (0, 0)
            \<and> position (h ! p) = (100, 0) \<and> length (n_children (h ! p)) = 1
          \<longrightarrow> position (fst s' ! length h) = (200, - 80))
       \<and> (map_option position (grandparent_of (h, m) p)
              = map_option position (grandparent_of (h2, m2) p2)
            \<and> position (h ! p) = position (h2 ! p2)
            \<and> length (n_children (h ! p)) = length (n_children (h2 ! p2))
          \<longrightarrow> position (fst s' ! length h) = position (fst s2' ! length h2))
       \<and> n_id (fst s' ! length h) = Some new_id
       \<and> get_node (snd s') (Some new_id) = Some (length h)"
proof -
  have p1: "position (fst s' ! length h) = new_position (grandparent_of (h, m) p) (h ! p)"
    using new_pos[OF assms(1,2)] by (simp add: position_def)
  have p2: "position (fst s2' ! length h2) = new_position (grandparent_of (h2, m2) p2) (h2 ! p2)"
    using new_pos[OF assms(3,4)] by (simp add: position_def)
  define n where "n = created_node new_id pid t nt (new_position (grandparent_of (h, m) p) (h ! p))"
  from handle_add_node_Inr[OF assms(1,2)]
  have s': "s' = add_node (length h) (h @ [n], m)" unfolding n_def by blast
  have n: "n_id n = Some new_id" by (simp add: n_def created_node_def SimpleMindNode_def)
  have "payload (fst s' ! length h) = payload n"
    by (simp only: s' add_node_payload nth_append_length)
  then have "n_id (fst s' ! length h) = n_id n" by (metis payload_sel(3))
  then have i: "n_id (fst s' ! length h) = Some new_id" using n by simp
  have g: "get_node (snd s') (Some new_id) = Some (length h)"
    unfolding s' get_node_def add_node_nodes by (simp add: n update_conv')
  have c1: "position (fst s' ! length h) = (200, - 80)"
    if "map_option position (grandparent_of (h, m) p) = Some (0, 0)
            \<and> position (h ! p) = (100, 0) \<and> length (n_children (h ! p)) = 1"
    unfolding p1 using that by (intro new_position_second_child) blast+
  have c2: "position (fst s' ! length h) = position (fst s2' ! length h2)"
    if "map_option position (grandparent_of (h, m) p)
              = map_option position (grandparent_of (h2, m2) p2)
            \<and> position (h ! p) = position (h2 ! p2)
            \<and> length (n_children (h ! p)) = length (n_children (h2 ! p2))"
    unfolding p1 p2 using that by (intro new_position_cong) blast+
  from c1 c2 i g show ?thesis by blast
qed

lemma ex_branch_eval:
  "fst ex_branch =
     [(topic_node ''0'' ''-1'' ''Root'' 0 0)\<lparr>n_children := [1]\<rparr>,
      (topic_node ''1'' ''0'' ''A'' 100 0)\<lparr>n_children := [2]\<rparr>,
      topic_node ''2'' ''1'' ''B'' 200 0]"
  "m_nodes (snd ex_branch) = [(Some ''0'', 0), (Some ''1'', 1), (Some ''2'', 2)]"
  by (simp_all add: ex_branch_def ex_simps)

theorem add_node_placement_witness:
  "\<exists>s'. handle_add_node ''1'' ''C'' [] ex_branch = Inr (s', ''3'')
        \<and> position (fst s' ! 3) = (200, - 80)
        \<and> n_id (fst s' ! 3) = Some ''3''
        \<and> get_node (snd s') (Some ''3'') = Some 3"
proof -
  let ?h = "fst ex_branch" and ?m = "snd ex_branch"
  have g: "get_node ?m (Some ''1'') = Some 1"
    by (simp add: get_node_def ex_branch_eval)
  have "\<exists>s'. handle_add_node ''1'' ''C'' [] (?h, ?m) = Inr (s', ''3'')"
    unfolding handle_add_node_unfold
    by (simp add: get_node_def ex_branch_eval(2) int_simps py_max_def py_str_def
          str_nat.simps digit_char_def)
  then obtain s' where run: "handle_add_node ''1'' ''C'' [] (?h, ?m) = Inr (s', ''3'')" ..
  have l: "length ?h = 3" by (simp add: ex_branch_eval)
  have pre: "map_option position (grandparent_of (?h, ?m) 1) = Some (0, 0)
            \<and> position (?h ! 1) = (100, 0) \<and> length (n_children (?h ! 1)) = 1"
    by (simp add: ex_branch_eval get_node_def position_def topic_node_def SimpleMindNode_def)
  from add_node_placement[OF g run g run] pre
  have "position (fst s' ! length ?h) = (200, - 80) \<and> n_id (fst s' ! length ?h) = Some ''3''
        \<and> get_node (snd s') (Some ''3'') = Some (length ?h)"
    by blast
  with run show ?thesis unfolding l by auto
qed

subsection \<open>Path resolution\<close>

lemma path_loop_chain:
  "chain s a as \<Longrightarrow>
     path_loop s path (Some a) = Some (map (path_entry (fst s)) (rev as) @ path)"
proof (induction arbitrary: path rule: chain.induct)
  case (at_root s a)
  then show ?case by (subst path_loop.simps) (simp add: path_entry_def)
next
  case (dangling s a)
  then show ?case
    by (subst path_loop.simps, simp add: path_entry_def, subst path_loop.simps, simp)
next
  case (up s a p as)
  show ?case
    by (subst path_loop.simps) (simp add: up.hyps up.IH path_entry_def)
qed

lemma path_loop_returns_chain:
  "path_loop s path cur = Some y \<Longrightarrow> cur = Some a \<Longrightarrow> \<exists>as. chain s a as"
proof (induction arbitrary: a rule: path_loop.raw_induct[rotated 1, consumes 1])
  case (1 path_loop s path current y)
  show ?case
  proof (cases "n_parent_id (fst s ! a) = sentinel")
    case True
    then show ?thesis by (blast intro: chain.at_root)
  next
    case False
    show ?thesis
    proof (cases "get_node (snd s) (n_parent_id (fst s ! a))")
      case None
      with False show ?thesis by (blast intro: chain.dangling)
    next
      case (Some p)
      from 1(2) False Some 1(3)
      have "path_loop s ((n_id (fst s ! a), n_text (fst s ! a)) # path) (Some p) = Some y"
        by simp
      from 1(1)[OF this refl] obtain as where "chain s p as" ..
      with False Some show ?thesis by (blast intro: chain.up)
    qed
  qed
qed

lemma path_loop_diverges:
  "(\<nexists>as. chain s a as) \<Longrightarrow> path_loop s path (Some a) = None"
  using path_loop_returns_chain[of s path "Some a" _ a] by (cases "path_loop s path (Some a)") auto

lemma chain_hd: "chain s a as \<Longrightarrow> as \<noteq> [] \<and> hd as = a"
  by (induction rule: chain.induct) auto

lemma chain_unique: "chain s a as \<Longrightarrow> chain s a bs \<Longrightarrow> as = bs"
proof (induction arbitrary: bs rule: chain.induct)
  case (at_root s a)
  from at_root(2) at_root(1) show ?case by (cases rule: chain.cases) auto
next
  case (dangling s a)
  from dangling(3) dangling(1,2) show ?case by (cases rule: chain.cases) auto
next
  case (up s a p as)
  from up(5) up(1,2) obtain bs' where "bs = a # bs'" "chain s p bs'"
    by (cases rule: chain.cases) auto
  with up.IH show ?case by simp
qed

lemma chain_suffix: "chain s a as \<Longrightarrow> b \<in> set as \<Longrightarrow> \<exists>bs. chain s b bs \<and> suffix bs as"
proof (induction rule: chain.induct)
  case (at_root s a)
  then show ?case by (auto intro: chain.at_root)
next
  case (dangling s a)
  then show ?case by (auto intro: chain.dangling)
next
  case (up s a p as)
  show ?case
  proof (cases "b = a")
    case True
    have "chain s a (a # as)" using up.hyps by (rule chain.up)
    with True show ?thesis by blast
  next
    case False
    with up.prems have "b \<in> set as" by simp
    from up.IH[OF this] show ?thesis by (blast intro: suffix_ConsI)
  qed
qed

lemma chain_distinct: "chain s a as \<Longrightarrow> distinct as"
proof (induction rule: chain.induct)
  case (up s a p as)
  have "a \<notin> set as"
  proof
    assume "a \<in> set as"
    from chain_suffix[OF up.hyps(3) this] obtain bs where bs: "chain s a bs" "suffix bs as"
      by blast
    have "chain s a (a # as)" using up.hyps by (rule chain.up)
    from chain_unique[OF this bs(1)] bs(2) have "suffix (a # as) as" by simp
    then have "length (a # as) \<le> length as" by (rule suffix_length_le)
    then show False by simp
  qed
  with up.IH show ?case by simp
qed simp_all

lemma chain_values:
  "chain s a as \<Longrightarrow> a \<in> snd ` set (m_nodes (snd s)) \<Longrightarrow> set as \<subseteq> snd ` set (m_nodes (snd s))"
proof (induction rule: chain.induct)
  case (up s a p as)
  from up.hyps(2) have "p \<in> snd ` set (m_nodes (snd s))"
    unfolding get_node_def by (metis map_of_SomeD snd_conv image_eqI)
  with up show ?case by simp
qed simp_all

lemma chain_top:
  "chain s a as \<Longrightarrow>
     n_parent_id (fst s ! last as) = sentinel
     \<or> get_node (snd s) (n_parent_id (fst s ! last as)) = None"
proof (induction rule: chain.induct)
  case (up s a p as)
  from chain_hd[OF up.hyps(3)] up.IH show ?case by simp
qed simp_all

lemma chain_length:
  assumes "chain (h, m) a as" and "get_node m k = Some a"
  shows "length as \<le> length (m_nodes m)"
proof -
  from assms(2) have "a \<in> snd ` set (m_nodes m)"
    unfolding get_node_def by (metis map_of_SomeD snd_conv image_eqI)
  with chain_values[OF assms(1)] have "set as \<subseteq> snd ` set (m_nodes m)" by simp
  then have "card (set as) \<le> card (snd ` set (m_nodes m))" by (intro card_mono) auto
  also have "\<dots> \<le> length (m_nodes m)" by (metis card_image_le List.finite_set card_length le_trans)
  finally show ?thesis using chain_distinct[OF assms(1)] by (simp add: distinct_card)
qed

text \<open>
  C3 (as amended).  \<open>get_node_path\<close> answers "not found" for an unknown id.  For a known
  node whose parent chain ends, after finitely many links, at a node whose parent is
  the sentinel or at a node whose parent reference does not resolve, the loop stops
  there: it has made at most as many iterations as the mapping has entries and it
  returns, without any error, the entries of the visited nodes, topmost first.  At a
  dangling reference that is the path from the last resolvable ancestor down.
\<close>

theorem get_node_path_chain:
  "(get_node m (Some node_id) = None \<longrightarrow>
      handle_get_node_path node_id (h, m) = Some (Inl NotFoundError))
   \<and> (\<forall>a as. get_node m (Some node_id) = Some a \<and> chain (h, m) a as \<longrightarrow>
        handle_get_node_path node_id (h, m) = Some (Inr (map (path_entry h) (rev as)))
        \<and> length as \<le> length (m_nodes m) \<and> hd as = a
        \<and> (n_parent_id (h ! last as) = sentinel
            \<or> get_node m (n_parent_id (h ! last as)) = None))"
proof (intro conjI allI impI)
  assume "get_node m (Some node_id) = None"
  then show "handle_get_node_path node_id (h, m) = Some (Inl NotFoundError)"
    by (simp add: handle_get_node_path_def)
next
  fix a as
  assume a: "get_node m (Some node_id) = Some a \<and> chain (h, m) a as"
  then have c: "chain (h, m) a as" and g: "get_node m (Some node_id) = Some a" by simp_all
  from path_loop_chain[OF c, of "[]"] g
  show "handle_get_node_path node_id (h, m) = Some (Inr (map (path_entry h) (rev as)))"
    by (simp add: handle_get_node_path_def)
  show "length as \<le> length (m_nodes m)" using chain_length[OF c g] .
  show "hd as = a" using chain_hd[OF c] by simp
  show "n_parent_id (h ! last as) = sentinel \<or> get_node m (n_parent_id (h ! last as)) = None"
    using chain_top[OF c] by simp
qed

lemma ex_cycle_eval:
  "fst ex_cycle = [(topic_node ''1'' ''2'' ''A'' 0 0)\<lparr>n_children := [1]\<rparr>,
                   topic_node ''2'' ''1'' ''B'' 100 0]"
  "m_nodes (snd ex_cycle) = [(Some ''1'', 0), (Some ''2'', 1)]"
  by (simp_all add: ex_cycle_def ex_simps)

lemma ex_dangling_eval:
  "fst ex_dangling = [topic_node ''0'' ''-1'' ''Root'' 0 0,
                      (topic_node ''5'' ''4'' ''Lost'' 100 0)\<lparr>n_children := [2]\<rparr>,
                      topic_node ''6'' ''5'' ''Leaf'' 200 0]"
  "m_nodes (snd ex_dangling) = [(Some ''0'', 0), (Some ''5'', 1), (Some ''6'', 2)]"
  by (simp_all add: ex_dangling_def ex_simps)

lemma ex_cycle_no_chain: "chain s a as \<Longrightarrow> s = ex_cycle \<Longrightarrow> a = 0 \<or> a = 1 \<Longrightarrow> False"
proof (induction rule: chain.induct)
  case (at_root s a)
  then show ?case by (auto simp: ex_cycle_eval topic_node_def SimpleMindNode_def)
next
  case (dangling s a)
  then show ?case
    by (auto simp: ex_cycle_eval get_node_def topic_node_def SimpleMindNode_def)
next
  case (up s a p as)
  from up.hyps(2) up.prems have "p = 0 \<or> p = 1"
    by (auto simp: ex_cycle_eval get_node_def topic_node_def SimpleMindNode_def)
  with up.IH up.prems show ?case by blast
qed

lemma ex_dangling_chain: "chain ex_dangling 2 [2, 1]"
  by (rule chain.up[where p = 1], (simp add: ex_dangling_eval get_node_def topic_node_def SimpleMindNode_def)+,
      rule chain.dangling, (simp add: ex_dangling_eval get_node_def topic_node_def SimpleMindNode_def)+)

text \<open>C3 as stated fails on both counts: on a two-node cycle the loop never ends, and
  at a dangling parent reference the tool returns the truncated path as a result.\<close>

theorem get_node_path_counterexample:
  "handle_get_node_path ''1'' ex_cycle = None
   \<and> handle_get_node_path ''6'' ex_dangling
        = Some (Inr [(Some ''5'', ''Lost''), (Some ''6'', ''Leaf'')])"
proof
  have "\<nexists>as. chain ex_cycle 0 as" using ex_cycle_no_chain by blast
  from path_loop_diverges[OF this, of "[]"]
  show "handle_get_node_path ''1'' ex_cycle = None"
    by (simp add: handle_get_node_path_def get_node_def ex_cycle_eval)
next
  from path_loop_chain[OF ex_dangling_chain, of "[]"]
  show "handle_get_node_path ''6'' ex_dangling
        = Some (Inr [(Some ''5'', ''Lost''), (Some ''6'', ''Leaf'')])"
    by (simp add: handle_get_node_path_def get_node_def ex_dangling_eval path_entry_def
          topic_node_def SimpleMindNode_def)
qed

theorem get_node_path_chain_witness:
  "get_node (snd ex_dangling) (Some ''6'') = Some 2 \<and> chain ex_dangling 2 [2, 1]
   \<and> handle_get_node_path ''6'' ex_dangling
        = Some (Inr (map (path_entry (fst ex_dangling)) (rev [2, 1])))
   \<and> length [2, 1 :: nat] \<le> length (m_nodes (snd ex_dangling))
   \<and> get_node (snd ex_dangling) (n_parent_id (fst ex_dangling ! 1)) = None"
proof -
  have g: "get_node (snd ex_dangling) (Some ''6'') = Some 2"
    by (simp add: get_node_def ex_dangling_eval)
  have c: "chain (fst ex_dangling, snd ex_dangling) 2 [2, 1]"
    using ex_dangling_chain by simp
  have r: "n_parent_id (fst ex_dangling ! 1) \<noteq> sentinel"
    by (simp add: ex_dangling_eval topic_node_def SimpleMindNode_def)
  note t = get_node_path_chain[of "snd ex_dangling" "''6''" "fst ex_dangling",
      THEN conjunct2, THEN spec, THEN spec, THEN mp, OF conjI[OF g c]]
  from t g ex_dangling_chain r show ?thesis by simp
qed

lemmas str_nat_num = str_nat.simps[of "numeral k"] str_nat.simps[of 0] str_nat.simps[of 1]
  str_nat.simps[of "Suc 0"] for k

lemmas float_simps = Let_def py_float_def float_of_text_def unsigned_def split_at_def digits_val_def
  strip_def is_space_def is_digit_def nat_of_digits_def digit_val_def fmt2_def round_half_even_def
  str_nat_num digit_char_def

subsection \<open>Decoding\<close>

lemmas read_simps = read_mindmap_def read_topic_def read_images_def read_relations_def
  read_meta_def xfind_desc_def xfindall_desc_def xfind_def xfindall_def xget_def
  new_object_def add_node_def SimpleMindNode_def SimpleMindMap_def

text \<open>
  C2.  The claim asks that a child record placed before its parent record end up in the
  parent's children list.  \<open>read\<close> makes one pass only (its comment "First pass: create
  all nodes" has no second pass to follow it) and links through \<open>add_node\<close>, which
  skips a node whose parent is not yet in the mapping.  On the archive \<open>ex_forward\<close> the
  child (object 0, id 1, parent 0) is in the mapping but the children list of the root
  (object 1, id 0) is empty.
\<close>

theorem read_forward_reference_not_linked:
  "\<exists>h m. read_mindmap ex_forward = Inr (h, m)
         \<and> get_node m (Some ''1'') = Some 0 \<and> get_node m (Some ''0'') = Some 1
         \<and> n_parent_id (h ! 0) = n_id (h ! 1)
         \<and> n_children (h ! 1) = []"
  by (simp add: ex_forward_def read_simps float_simps get_node_def)

subsection \<open>Trees\<close>

lemma height_kid: "t \<in> set ts \<Longrightarrow> height t < height (RT a ts)"
  by (induction ts) auto

lemma label_in_flat [simp]: "label t \<in> set (flat t)"
  by (cases t) simp

lemma flat_nonempty [simp]: "flat t \<noteq> []"
  by (cases t) simp

lemma hd_flat [simp]: "hd (flat t) = label t"
  by (cases t) simp

lemma label_prune [simp]: "label (prune a t) = label t"
  by (cases t) simp

lemma subtrees_self [simp]: "t \<in> set (subtrees t)"
  by (cases t) simp

lemma flat_subtrees: "flat t = map label (subtrees t)"
  by (induction t) (simp add: map_concat comp_def cong: map_cong)

lemma subtree_flat_subset: "u \<in> set (subtrees t) \<Longrightarrow> set (flat u) \<subseteq> set (flat t)"
  by (induction t) auto

lemma subtree_height: "u \<in> set (subtrees t) \<Longrightarrow> height u \<le> height t"
proof (induction t)
  case (RT a ts)
  show ?case
  proof (cases "u = RT a ts")
    case False
    with RT.prems obtain t where t: "t \<in> set ts" "u \<in> set (subtrees t)" by auto
    from RT.IH[OF this] height_kid[OF t(1), of a] show ?thesis by simp
  qed simp
qed

lemma is_tree_subtree: "is_tree h t \<Longrightarrow> u \<in> set (subtrees t) \<Longrightarrow> is_tree h u"
  by (induction t) auto

lemma is_tree_bound: "is_tree h t \<Longrightarrow> a \<in> set (flat t) \<Longrightarrow> a < length h"
  by (induction t) auto

lemma is_tree_frame:
  "\<forall>a \<in> set (flat t). h' ! a = h ! a \<Longrightarrow> length h' = length h \<Longrightarrow> is_tree h' t = is_tree h t"
proof (induction t)
  case (RT a ts)
  have "is_tree h' t = is_tree h t" if "t \<in> set ts" for t
    using RT.IH[OF that] RT.prems that by auto
  moreover have "h' ! label t = h ! label t" if "t \<in> set ts" for t
    using RT.prems(1) that label_in_flat[of t] by auto
  moreover have "h' ! a = h ! a" using RT.prems by simp
  ultimately show ?case using RT.prems(2) by auto
qed

subsection \<open>The recursions of the delete\_node tool on a tree\<close>

lemma count_fold:
  "\<forall>t \<in> set ts. count_descendants k h (label t) = Some (length (flat t)) \<Longrightarrow>
   fold (\<lambda>child count. case count of None \<Rightarrow> None
           | Some c \<Rightarrow> (case count_descendants k h child of
                          None \<Rightarrow> None | Some d \<Rightarrow> Some (c + d)))
        (map label ts) (Some c)
   = Some (c + length (flats ts))"
  by (induction ts arbitrary: c) auto

lemma count_descendants_tree:
  "is_tree h t \<Longrightarrow> height t \<le> k \<Longrightarrow> count_descendants k h (label t) = Some (length (flat t))"
proof (induction t arbitrary: k)
  case (RT a ts)
  from RT.prems(2) obtain k' where k: "k = Suc k'" by (cases k) auto
  have "count_descendants k' h (label t) = Some (length (flat t))" if "t \<in> set ts" for t
    using RT.IH[OF that, of k'] RT.prems that height_kid[OF that, of a] k by auto
  then have "\<forall>t \<in> set ts. count_descendants k' h (label t) = Some (length (flat t))" by blast
  from count_fold[OF this, of 1] RT.prems(1) show ?case by (simp add: k)
qed

lemma delete_filter: "AList.delete k d = filter (\<lambda>kv. fst kv \<noteq> k) d"
  by (induction d) (auto simp: AList.delete_eq)

lemma remove_fold:
  "\<forall>t \<in> set ts. \<forall>d. remove_node_and_children k h (label t) d
        = Some (filter (\<lambda>kv. fst kv \<notin> ids_of h (flat t)) d) \<Longrightarrow>
   fold (\<lambda>child acc. case acc of None \<Rightarrow> None
                      | Some d \<Rightarrow> remove_node_and_children k h child d)
        (map label ts) (Some d)
   = Some (filter (\<lambda>kv. fst kv \<notin> ids_of h (flats ts)) d)"
proof (induction ts arbitrary: d)
  case Nil
  then show ?case by (simp add: ids_of_def)
next
  case (Cons t ts)
  have "filter (\<lambda>kv. fst kv \<notin> ids_of h (flats ts)) (filter (\<lambda>kv. fst kv \<notin> ids_of h (flat t)) d)
        = filter (\<lambda>kv. fst kv \<notin> ids_of h (flats (t # ts))) d"
    by (auto simp: ids_of_def intro: filter_cong)
  with Cons show ?case by simp
qed

lemma remove_tree:
  "is_tree h t \<Longrightarrow> height t \<le> k \<Longrightarrow>
   remove_node_and_children k h (label t) d = Some (filter (\<lambda>kv. fst kv \<notin> ids_of h (flat t)) d)"
proof (induction t arbitrary: k d)
  case (RT a ts)
  from RT.prems(2) obtain k' where k: "k = Suc k'" by (cases k) auto
  have "remove_node_and_children k' h (label t) d
          = Some (filter (\<lambda>kv. fst kv \<notin> ids_of h (flat t)) d)" if "t \<in> set ts" for t d
    using RT.IH[OF that, of k'] RT.prems that height_kid[OF that, of a] k by auto
  then have "\<forall>t \<in> set ts. \<forall>d. remove_node_and_children k' h (label t) d
        = Some (filter (\<lambda>kv. fst kv \<notin> ids_of h (flat t)) d)" by blast
  from remove_fold[OF this, of d]
  have f: "fold (\<lambda>child acc. case acc of None \<Rightarrow> None
                      | Some d \<Rightarrow> remove_node_and_children k' h child d)
        (n_children (h ! a)) (Some d)
     = Some (filter (\<lambda>kv. fst kv \<notin> ids_of h (flats ts)) d)"
    using RT.prems(1) by simp
  have e: "filter (\<lambda>kv. fst kv \<noteq> n_id (h ! a)) (filter (\<lambda>kv. fst kv \<notin> ids_of h (flats ts)) d)
        = filter (\<lambda>kv. fst kv \<notin> ids_of h (flat (RT a ts))) d"
    by (auto simp: ids_of_def intro: filter_cong)
  have g: "(if n_id (h ! a) \<in> fst ` set d' then AList.delete (n_id (h ! a)) d' else d')
        = filter (\<lambda>kv. fst kv \<noteq> n_id (h ! a)) d'" for d' :: "(string option \<times> addr) list"
  proof (cases "n_id (h ! a) \<in> fst ` set d'")
    case False
    then have "filter (\<lambda>kv. fst kv \<noteq> n_id (h ! a)) d' = d'"
      by (intro filter_True) force
    with False show ?thesis by simp
  qed (simp add: delete_filter)
  show ?case unfolding k rtree.sel remove_node_and_children.simps g
    using f e by simp
qed

subsection \<open>Pruning a forest\<close>

lemma distinct_subtree: "distinct (flat t) \<Longrightarrow> u \<in> set (subtrees t) \<Longrightarrow> distinct (flat u)"
proof (induction t)
  case (RT a ts)
  show ?case
  proof (cases "u = RT a ts")
    case True
    with RT.prems show ?thesis by simp
  next
    case False
    with RT.prems obtain t where t: "t \<in> set ts" "u \<in> set (subtrees t)" by auto
    from RT.prems(1) t(1) have "distinct (flat t)" by (auto simp: distinct_concat_iff)
    from RT.IH[OF t(1) this t(2)] show ?thesis .
  qed
qed

lemma subtree_unique:
  assumes "distinct (flat t)" "u \<in> set (subtrees t)" "v \<in> set (subtrees t)" "label u = label v"
  shows "u = v"
proof -
  from assms(1) have "distinct (map label (subtrees t))" by (simp add: flat_subtrees)
  then have "inj_on label (set (subtrees t))" by (simp add: distinct_map)
  with assms(2-4) show ?thesis by (auto dest: inj_onD)
qed

lemma subtree_exists: "a \<in> set (flat t) \<Longrightarrow> \<exists>u \<in> set (subtrees t). label u = a"
  by (auto simp: flat_subtrees)

lemma subtrees_trans: "u \<in> set (subtrees t) \<Longrightarrow> v \<in> set (subtrees u) \<Longrightarrow> v \<in> set (subtrees t)"
  by (induction t) auto

lemma kid_subtree: "u \<in> set ts \<Longrightarrow> v \<in> set (subtrees u) \<Longrightarrow> v \<in> set (subtrees (RT a ts))"
  by auto

lemma kids_disjoint:
  assumes "distinct (flats us)" "u \<in> set us" "v \<in> set us" "x \<in> set (flat u)" "x \<in> set (flat v)"
  shows "u = v"
  using assms
proof (induction us)
  case (Cons w us)
  show ?case
  proof (cases "u = w")
    case u: True
    show ?thesis
    proof (cases "v = w")
      case False
      with Cons.prems have "v \<in> set us" by simp
      with Cons.prems(1,4,5) u show ?thesis by auto
    qed (simp add: u)
  next
    case u: False
    with Cons.prems have uin: "u \<in> set us" by simp
    show ?thesis
    proof (cases "v = w")
      case True
      with Cons.prems(1,4,5) uin show ?thesis by auto
    next
      case False
      with Cons.prems have "v \<in> set us" by simp
      with Cons uin show ?thesis by simp
    qed
  qed
qed simp

lemma prune_notin: "a \<notin> set (flat r) \<Longrightarrow> prune a r = r"
proof (induction r)
  case (RT b us)
  have l: "label u \<noteq> a" if "u \<in> set us" for u
    using RT.prems that label_in_flat[of u] by auto
  have "prune a u = u" if "u \<in> set us" for u
    using RT.IH[OF that] RT.prems that by auto
  then have "map (prune a) us = us" by (simp add: map_idI)
  moreover have "filter (\<lambda>t. label t \<noteq> a) us = us" using l by (simp add: filter_True)
  ultimately show ?case by simp
qed

lemma concat_map_filter_cases:
  "\<forall>u \<in> set us. (if P u then f u else []) = g u \<Longrightarrow>
   concat (map f (filter P us)) = concat (map g us)"
  by (induction us) auto

lemma prune_flat:
  assumes "distinct (flat r)" "t \<in> set (subtrees r)" "label t = a" "label r \<noteq> a"
  shows "flat (prune a r) = filter (\<lambda>x. x \<notin> set (flat t)) (flat r)"
  using assms
proof (induction r)
  case (RT b us)
  from RT.prems(2-4) obtain u0 where u0: "u0 \<in> set us" "t \<in> set (subtrees u0)" by auto
  from RT.prems(1) have dus: "distinct (flats us)" and b: "b \<notin> set (flats us)" by auto
  have tsub: "set (flat t) \<subseteq> set (flat u0)" using u0(2) by (rule subtree_flat_subset)
  have bt: "b \<notin> set (flat t)" using tsub u0(1) b by auto
  have ain: "a \<in> set (flat u0)" using tsub RT.prems(3) label_in_flat[of t] by auto
  have each: "(if label u \<noteq> a then flat (prune a u) else []) = filter (\<lambda>x. x \<notin> set (flat t)) (flat u)"
    if u: "u \<in> set us" for u
  proof (cases "u = u0")
    case True
    have du: "distinct (flat u0)" using dus u0(1) by (auto simp: distinct_concat_iff)
    show ?thesis
    proof (cases "label u0 = a")
      case la: True
      have "t = u0" using subtree_unique[OF du u0(2) subtrees_self] la RT.prems(3) by simp
      with la True show ?thesis by simp
    next
      case False
      from RT.IH[OF u0(1) du u0(2) RT.prems(3) False] False True show ?thesis by simp
    qed
  next
    case False
    have disj: "x \<notin> set (flat u)" if "x \<in> set (flat u0)" for x
      using kids_disjoint[OF dus u u0(1) _ that] False by blast
    then have "a \<notin> set (flat u)" using ain by blast
    then have "prune a u = u" "label u \<noteq> a"
      using prune_notin label_in_flat[of u] by auto
    moreover have "filter (\<lambda>x. x \<notin> set (flat t)) (flat u) = flat u"
      using disj tsub by (intro filter_True) auto
    ultimately show ?thesis by simp
  qed
  have "concat (map (\<lambda>u. flat (prune a u)) (filter (\<lambda>u. label u \<noteq> a) us))
        = concat (map (\<lambda>u. filter (\<lambda>x. x \<notin> set (flat t)) (flat u)) us)"
    by (rule concat_map_filter_cases) (use each in blast)
  then show ?case using bt by (simp add: filter_concat comp_def)
qed

lemma prunes_flat:
  fixes F :: "nat rtree list"
  assumes "distinct (flats F)" "t \<in> set (forest_subtrees F)" "label t = a"
  shows "flats (prunes a F) = filter (\<lambda>x. x \<notin> set (flat t)) (flats F)"
proof -
  have "\<exists>v. v \<notin> set (a # flats F)" by (intro ex_new_if_finite) auto
  then obtain v where v: "v \<noteq> a" "v \<notin> set (flats F)" by auto
  have d: "distinct (flat (RT v F))" using assms(1) v by simp
  have s: "t \<in> set (subtrees (RT v F))" using assms(2) by simp
  have "set (flat t) \<subseteq> set (flats F)" using assms(2) subtree_flat_subset by fastforce
  then have vt: "v \<notin> set (flat t)" using v by auto
  from prune_flat[OF d s assms(3)] v(1) vt show ?thesis
    by (simp add: prunes_def comp_def)
qed

lemma in_flat_cases:
  "a \<in> set (flat t) \<Longrightarrow> a = label t \<or> (\<exists>u \<in> set (subtrees t). a \<in> label ` set (kids u))"
proof (induction t)
  case (RT b us)
  show ?case
  proof (cases "a = b")
    case False
    with RT.prems obtain u where u: "u \<in> set us" "a \<in> set (flat u)" by auto
    from RT.IH[OF this] show ?thesis
    proof
      assume "a = label u"
      with u(1) have "a \<in> label ` set (kids (RT b us))" by auto
      then show ?thesis by (metis subtrees_self)
    next
      assume "\<exists>v \<in> set (subtrees u). a \<in> label ` set (kids v)"
      with u(1) show ?thesis by auto
    qed
  qed simp
qed

lemma in_flats_cases:
  "a \<in> set (flats F) \<Longrightarrow>
     a \<in> label ` set F \<or> (\<exists>u \<in> set (forest_subtrees F). a \<in> label ` set (kids u))"
  using in_flat_cases by fastforce

lemma is_tree_kid:
  "is_tree h u \<Longrightarrow> c \<in> label ` set (kids u) \<Longrightarrow>
     n_parent_id (h ! c) = n_id (h ! label u) \<and> c \<in> set (n_children (h ! label u))"
  by (cases u) auto

lemma is_tree_children: "is_tree h u \<Longrightarrow> n_children (h ! label u) = map label (kids u)"
  by (cases u) auto

lemma is_tree_prune:
  assumes "is_tree h r"
    and "\<forall>u \<in> set (subtrees r). a \<in> label ` set (kids u) \<longrightarrow> label u = p"
    and "h1 = h[p := (h ! p)\<lparr>n_children := filter (\<lambda>c. c \<noteq> a) (n_children (h ! p))\<rparr>]"
  shows "is_tree h1 (prune a r)"
  using assms(1,2)
proof (induction r)
  case (RT b us)
  have pl: "payload (h1 ! x) = payload (h ! x)" for x unfolding assms(3) by simp
  have ids: "n_id (h1 ! x) = n_id (h ! x)" "n_parent_id (h1 ! x) = n_parent_id (h ! x)" for x
    using pl[of x] by (metis payload_sel(3), metis payload_sel(6))
  have len: "length h1 = length h" unfolding assms(3) by simp
  from RT.prems(1) have b: "b < length h" and cs: "n_children (h ! b) = map label us"
    and ks: "\<forall>t \<in> set us. n_parent_id (h ! label t) = n_id (h ! b) \<and> is_tree h t" by auto
  have ch: "n_children (h1 ! b) = filter (\<lambda>c. c \<noteq> a) (map label us)"
  proof (cases "b = p")
    case True
    then show ?thesis unfolding assms(3) using b cs by (simp add: nth_children_update)
  next
    case False
    with RT.prems(2) have "a \<notin> label ` set us" by (metis subtrees_self rtree.sel)
    then have "filter (\<lambda>c. c \<noteq> a) (map label us) = map label us"
      by (intro filter_True) auto
    then show ?thesis unfolding assms(3) using False cs by (simp add: nth_children_update)
  qed
  have kid: "is_tree h1 (prune a u)" if "u \<in> set us" for u
  proof -
    have "\<forall>v \<in> set (subtrees u). a \<in> label ` set (kids v) \<longrightarrow> label v = p"
      using RT.prems(2) that by auto
    with RT.IH[OF that] ks that show ?thesis by blast
  qed
  show ?case using b len ch kid ks ids
    by (auto simp: filter_map comp_def)
qed

subsection \<open>Consequences of well-formedness\<close>

lemma wf_lookup:
  assumes "wf_map (h, m) F"
  shows "get_node m k = Some a \<longleftrightarrow> a \<in> set (flats F) \<and> n_id (h ! a) = k"
proof
  assume "get_node m k = Some a"
  then have in_nodes: "(k, a) \<in> set (m_nodes m)" unfolding get_node_def by (rule map_of_SomeD)
  then have "a \<in> snd ` set (m_nodes m)" by force
  moreover from in_nodes assms have "n_id (h ! a) = k"
    unfolding wf_map_def by (auto simp: list_all_iff)
  ultimately show "a \<in> set (flats F) \<and> n_id (h ! a) = k"
    using assms unfolding wf_map_def by simp
next
  assume r: "a \<in> set (flats F) \<and> n_id (h ! a) = k"
  with assms have "a \<in> snd ` set (m_nodes m)" unfolding wf_map_def by simp
  then obtain k' where k': "(k', a) \<in> set (m_nodes m)" by auto
  with assms have "n_id (h ! a) = k'" unfolding wf_map_def by (auto simp: list_all_iff)
  with r k' have "(k, a) \<in> set (m_nodes m)" by simp
  moreover from assms have "distinct (map fst (m_nodes m))" unfolding wf_map_def by simp
  ultimately show "get_node m k = Some a" unfolding get_node_def by (simp add: map_of_is_SomeI)
qed

lemma wf_id_inj:
  assumes "wf_map (h, m) F" "a \<in> set (flats F)" "b \<in> set (flats F)" "n_id (h ! a) = n_id (h ! b)"
  shows "a = b"
proof -
  from wf_lookup[OF assms(1), of "n_id (h ! a)" a] assms(2) have "get_node m (n_id (h ! a)) = Some a"
    by simp
  moreover from wf_lookup[OF assms(1), of "n_id (h ! a)" b] assms(3,4)
  have "get_node m (n_id (h ! a)) = Some b" by simp
  ultimately show ?thesis by simp
qed

lemma wf_root_sentinel:
  assumes "wf_map (h, m) F" "a \<in> set (flats F)"
  shows "a \<in> label ` set F \<longleftrightarrow> n_parent_id (h ! a) = sentinel"
proof -
  from assms(1) have "set (map label F)
      = set (filter (\<lambda>a. n_parent_id (h ! a) = sentinel) (map snd (m_nodes m)))"
    unfolding wf_map_def by simp
  moreover from assms have "a \<in> snd ` set (m_nodes m)" unfolding wf_map_def by simp
  ultimately show ?thesis by auto
qed

lemma wf_subtree:
  assumes "wf_map (h, m) F" "u \<in> set (forest_subtrees F)"
  shows "is_tree h u" "set (flat u) \<subseteq> set (flats F)" "distinct (flat u)"
proof -
  from assms(2) obtain r where r: "r \<in> set F" "u \<in> set (subtrees r)" by auto
  from assms(1) r(1) have "is_tree h r" "distinct (flat r)"
    unfolding wf_map_def by (auto simp: list_all_iff distinct_concat_iff)
  then show "is_tree h u" "distinct (flat u)"
    using r(2) is_tree_subtree distinct_subtree by blast+
  show "set (flat u) \<subseteq> set (flats F)" using subtree_flat_subset[OF r(2)] r(1) by auto
qed

lemma wf_kid_parent:
  assumes "wf_map (h, m) F" "u \<in> set (forest_subtrees F)" "a \<in> label ` set (kids u)"
  shows "get_node m (n_parent_id (h ! a)) = Some (label u)"
proof -
  from wf_subtree[OF assms(1,2)] have "is_tree h u" "set (flat u) \<subseteq> set (flats F)" by blast+
  then have "is_tree h u" "label u \<in> set (flats F)"
    using label_in_flat[of u] by blast+
  with is_tree_kid[OF this(1) assms(3)] wf_lookup[OF assms(1)] show ?thesis by simp
qed

lemma wf_parent:
  assumes "wf_map (h, m) F" "a \<in> set (flats F)" "n_parent_id (h ! a) \<noteq> sentinel"
  shows "\<exists>u \<in> set (forest_subtrees F). a \<in> label ` set (kids u)"
  using in_flats_cases[OF assms(2)] wf_root_sentinel[OF assms(1,2)] assms(3) by blast

lemma forest_subtree_unique:
  fixes F :: "nat rtree list"
  assumes "distinct (flats F)" "u \<in> set (forest_subtrees F)" "v \<in> set (forest_subtrees F)"
    "label u = label v"
  shows "u = v"
proof -
  have "\<exists>x. x \<notin> set (flats F)" by (intro ex_new_if_finite) auto
  then obtain x where x: "x \<notin> set (flats F)" by auto
  have "distinct (flat (RT x F))" using assms(1) x by simp
  from subtree_unique[OF this, of u v] assms(2-4) show ?thesis by simp
qed

lemma subtree_at_Some:
  "subtree_at F a = Some t \<Longrightarrow> t \<in> set (forest_subtrees F) \<and> label t = a"
proof -
  assume "subtree_at F a = Some t"
  then have f: "List.find (\<lambda>t. label t = a) (forest_subtrees F) = Some t"
    unfolding subtree_at_def .
  then obtain i where "i < length (forest_subtrees F)" "label (forest_subtrees F ! i) = a"
    "t = forest_subtrees F ! i" unfolding find_Some_iff by blast
  then show ?thesis using nth_mem by blast
qed

lemma subtree_at_exists:
  "a \<in> set (flats F) \<Longrightarrow> \<exists>t. subtree_at F a = Some t"
proof -
  assume "a \<in> set (flats F)"
  then obtain r where "r \<in> set F" "a \<in> set (flat r)" by auto
  with subtree_exists[of a r] have "\<exists>u \<in> set (forest_subtrees F). label u = a" by auto
  then show ?thesis unfolding subtree_at_def by (cases "List.find (\<lambda>t. label t = a) (forest_subtrees F)") (auto simp: find_None_iff)
qed

lemma kid_in_subtrees: "v \<in> set (kids u) \<Longrightarrow> v \<in> set (subtrees u)"
  by (cases u) (auto intro!: bexI[of _ v])

lemma kid_not_label:
  assumes "distinct (flat r)" "u \<in> set (subtrees r)" "c \<in> label ` set (kids u)"
  shows "c \<noteq> label r"
proof -
  obtain b us where r: "r = RT b us" by (cases r)
  have "c \<in> set (flats us)"
  proof (cases "u = r")
    case True
    with assms(3) r obtain k where "k \<in> set us" "c = label k" by auto
    then show ?thesis by (auto intro!: bexI[of _ k])
  next
    case False
    with assms(2) r obtain k where k: "k \<in> set us" "u \<in> set (subtrees k)" by auto
    from assms(3) obtain v where v: "v \<in> set (kids u)" "c = label v" by auto
    then have "v \<in> set (subtrees u)" by (simp add: kid_in_subtrees)
    from subtrees_trans[OF k(2) this] have "v \<in> set (subtrees k)" .
    from subtree_flat_subset[OF this] v(2) label_in_flat[of v] have "c \<in> set (flat k)" by auto
    with k(1) show ?thesis by auto
  qed
  with assms(1) r show ?thesis by auto
qed

lemma wf_kid_not_root:
  assumes "wf_map (h, m) F" "u \<in> set (forest_subtrees F)" "c \<in> label ` set (kids u)"
  shows "c \<notin> label ` set F"
proof
  assume "c \<in> label ` set F"
  then obtain r1 where r1: "r1 \<in> set F" "c = label r1" by auto
  from assms(2) obtain r0 where r0: "r0 \<in> set F" "u \<in> set (subtrees r0)" by auto
  from assms(1) have d: "distinct (flats F)" unfolding wf_map_def by simp
  then have d0: "distinct (flat r0)" using r0(1) by (auto simp: distinct_concat_iff)
  from assms(3) obtain v where v: "v \<in> set (kids u)" "c = label v" by auto
  then have "v \<in> set (subtrees u)" by (simp add: kid_in_subtrees)
  from subtrees_trans[OF r0(2) this] have "v \<in> set (subtrees r0)" .
  from subtree_flat_subset[OF this] v(2) label_in_flat[of v] have c0: "c \<in> set (flat r0)" by auto
  have c1: "c \<in> set (flat r1)" using r1(2) by simp
  from kids_disjoint[OF d r0(1) r1(1) c0 c1] have "r0 = r1" .
  with kid_not_label[OF d0 r0(2) assms(3)] r1(2) show False by simp
qed




subsection \<open>Deleting a subtree\<close>

lemma handle_delete_node_wf:
  assumes wf: "wf_map (h, m) F" and g: "get_node m (Some node_id) = Some a"
    and nr: "n_parent_id (h ! a) \<noteq> sentinel" and t: "subtree_at F a = Some t"
    and ht: "height t \<le> rlimit"
  shows "\<exists>p. get_node m (n_parent_id (h ! a)) = Some p \<and> a \<in> set (n_children (h ! p))
      \<and> p \<notin> set (flat t)
      \<and> handle_delete_node rlimit node_id (h, m)
          = Inr ((h[p := (h ! p)\<lparr>n_children := filter (\<lambda>c. c \<noteq> a) (n_children (h ! p))\<rparr>],
                  m\<lparr>m_nodes := filter (\<lambda>kv. snd kv \<notin> set (flat t)) (m_nodes m)\<rparr>),
                 int (length (flat t)) - 1)
      \<and> wf_map (h[p := (h ! p)\<lparr>n_children := filter (\<lambda>c. c \<noteq> a) (n_children (h ! p))\<rparr>],
                  m\<lparr>m_nodes := filter (\<lambda>kv. snd kv \<notin> set (flat t)) (m_nodes m)\<rparr>)
                (prunes a F)"
proof -
  from wf_lookup[OF wf] g have aF: "a \<in> set (flats F)" and aid: "n_id (h ! a) = Some node_id"
    by simp_all
  from subtree_at_Some[OF t] have tF: "t \<in> set (forest_subtrees F)" and lt: "label t = a"
    by simp_all
  note tt = wf_subtree[OF wf tF]
  from wf have dF: "distinct (flats F)" unfolding wf_map_def by simp
  from wf_parent[OF wf aF nr] obtain u where u: "u \<in> set (forest_subtrees F)"
    "a \<in> label ` set (kids u)" by blast
  define p where "p = label u"
  note uu = wf_subtree[OF wf u(1)]
  have gp: "get_node m (n_parent_id (h ! a)) = Some p"
    unfolding p_def by (rule wf_kid_parent[OF wf u])
  have cs: "n_children (h ! p) = map label (kids u)"
    unfolding p_def by (rule is_tree_children[OF uu(1)])
  have ac: "a \<in> set (n_children (h ! p))" using cs u(2) by simp
  have csF: "c \<in> set (flats F)" if "c \<in> set (n_children (h ! p))" for c
  proof -
    from that cs obtain k where k: "k \<in> set (kids u)" "c = label k" by auto
    from subtree_flat_subset[OF kid_in_subtrees[OF k(1)]] k(2) label_in_flat[of k] uu(2)
    show ?thesis by blast
  qed
  have fl: "filter (\<lambda>c. n_id (h ! c) \<noteq> Some node_id) (n_children (h ! p))
            = filter (\<lambda>c. c \<noteq> a) (n_children (h ! p))"
  proof (rule filter_cong[OF refl])
    fix c assume "c \<in> set (n_children (h ! p))"
    from csF[OF this] wf_id_inj[OF wf _ aF, of c] aid
    show "(n_id (h ! c) \<noteq> Some node_id) = (c \<noteq> a)" by auto
  qed
  define h1 where "h1 = h[p := (h ! p)\<lparr>n_children := filter (\<lambda>c. c \<noteq> a) (n_children (h ! p))\<rparr>]"
  have pl: "payload (h1 ! x) = payload (h ! x)" for x unfolding h1_def by simp
  have ids: "n_id (h1 ! x) = n_id (h ! x)" "n_parent_id (h1 ! x) = n_parent_id (h ! x)" for x
    using pl[of x] by (metis payload_sel(3), metis payload_sel(6))
  have cnt: "count_descendants rlimit h a = Some (length (flat t))"
    using count_descendants_tree[OF tt(1) ht] lt by simp
  \<comment> \<open>the parent is outside the subtree\<close>
  from u(2) obtain k where k: "k \<in> set (kids u)" "label k = a" by auto
  have "k \<in> set (forest_subtrees F)"
    using u(1) kid_in_subtrees[OF k(1)] subtrees_trans by fastforce
  from forest_subtree_unique[OF dF this tF] k(2) lt have kt: "k = t" by simp
  have pt: "p \<notin> set (flat t)"
  proof -
    obtain b us where ub: "u = RT b us" by (cases u)
    with uu(3) k(1) kt show ?thesis unfolding p_def by auto
  qed
  have "is_tree h1 t = is_tree h t"
  proof (rule is_tree_frame)
    show "\<forall>x \<in> set (flat t). h1 ! x = h ! x"
    proof
      fix x assume "x \<in> set (flat t)"
      with pt have "p \<noteq> x" by auto
      then show "h1 ! x = h ! x" unfolding h1_def by simp
    qed
    show "length h1 = length h" unfolding h1_def by simp
  qed
  with tt(1) have t1: "is_tree h1 t" by simp
  have idsof: "ids_of h1 (flat t) = ids_of h (flat t)" unfolding ids_of_def using ids by simp
  have rm: "remove_node_and_children rlimit h1 a (m_nodes m)
            = Some (filter (\<lambda>kv. snd kv \<notin> set (flat t)) (m_nodes m))"
  proof -
    have "filter (\<lambda>kv. fst kv \<notin> ids_of h (flat t)) (m_nodes m)
          = filter (\<lambda>kv. snd kv \<notin> set (flat t)) (m_nodes m)"
    proof (rule filter_cong[OF refl])
      fix kv assume kv: "kv \<in> set (m_nodes m)"
      with wf have e: "n_id (h ! snd kv) = fst kv" and v: "snd kv \<in> set (flats F)"
        unfolding wf_map_def by (auto simp: list_all_iff)
      show "(fst kv \<notin> ids_of h (flat t)) = (snd kv \<notin> set (flat t))"
      proof -
        have "fst kv \<in> ids_of h (flat t) \<longleftrightarrow> snd kv \<in> set (flat t)"
        proof
          assume "fst kv \<in> ids_of h (flat t)"
          then obtain x where x: "x \<in> set (flat t)" "n_id (h ! x) = fst kv"
            unfolding ids_of_def by auto
          with tt(2) have "x \<in> set (flats F)" by auto
          from wf_id_inj[OF wf this v] x(2) e have "x = snd kv" by simp
          with x(1) show "snd kv \<in> set (flat t)" by simp
        next
          assume "snd kv \<in> set (flat t)"
          with e show "fst kv \<in> ids_of h (flat t)" unfolding ids_of_def by force
        qed
        then show ?thesis by simp
      qed
    qed
    with remove_tree[OF t1 ht, of "m_nodes m"] lt idsof show ?thesis by simp
  qed
  have run: "handle_delete_node rlimit node_id (h, m)
          = Inr ((h1, m\<lparr>m_nodes := filter (\<lambda>kv. snd kv \<notin> set (flat t)) (m_nodes m)\<rparr>),
                 int (length (flat t)) - 1)"
    unfolding handle_delete_node_def Let_def fst_conv snd_conv
    using g nr cnt gp rm[unfolded h1_def] fl by (simp add: h1_def)
  \<comment> \<open>the remaining map is well formed\<close>
  let ?m' = "m\<lparr>m_nodes := filter (\<lambda>kv. snd kv \<notin> set (flat t)) (m_nodes m)\<rparr>"
  have w1: "list_all (is_tree h1) (prunes a F)"
  proof -
    have "is_tree h1 (prune a r)" if r: "r \<in> set F" for r
    proof (rule is_tree_prune[where h = h and p = p])
      from wf r show "is_tree h r" unfolding wf_map_def by (auto simp: list_all_iff)
      show "\<forall>v \<in> set (subtrees r). a \<in> label ` set (kids v) \<longrightarrow> label v = p"
      proof (intro ballI impI)
        fix v assume v: "v \<in> set (subtrees r)" "a \<in> label ` set (kids v)"
        with r have "v \<in> set (forest_subtrees F)" by auto
        from wf_kid_parent[OF wf this v(2)] gp show "label v = p" by simp
      qed
      show "h1 = h[p := (h ! p)\<lparr>n_children := filter (\<lambda>c. c \<noteq> a) (n_children (h ! p))\<rparr>]"
        by (rule h1_def)
    qed
    then show ?thesis unfolding prunes_def by (auto simp: list_all_iff)
  qed
  have pf: "flats (prunes a F) = filter (\<lambda>x. x \<notin> set (flat t)) (flats F)"
    by (rule prunes_flat[OF dF tF lt])
  have w2: "distinct (flats (prunes a F))" unfolding pf using dF by simp
  have w3: "set (flats (prunes a F)) = snd ` set (m_nodes ?m')"
  proof -
    from wf have "set (flats F) = snd ` set (m_nodes m)" unfolding wf_map_def by simp
    then show ?thesis unfolding pf by force
  qed
  have w4: "distinct (map fst (m_nodes ?m'))"
    using wf unfolding wf_map_def by (simp add: distinct_map_filter)
  have w5: "list_all (\<lambda>(k, a). n_id (h1 ! a) = k) (m_nodes ?m')"
    using wf ids unfolding wf_map_def by (auto simp: list_all_iff)
  have w6: "map label (prunes a F)
        = filter (\<lambda>a. n_parent_id (h1 ! a) = sentinel) (map snd (m_nodes ?m'))"
  proof -
    from wf have roots: "map label F
        = filter (\<lambda>a. n_parent_id (h ! a) = sentinel) (map snd (m_nodes m))"
      unfolding wf_map_def by simp
    have "map label (prunes a F) = filter (\<lambda>c. c \<noteq> a) (map label F)"
      unfolding prunes_def by (simp add: filter_map comp_def)
    also have "\<dots> = filter (\<lambda>c. c \<noteq> a \<and> n_parent_id (h ! c) = sentinel) (map snd (m_nodes m))"
      unfolding roots by (simp add: conj_commute)
    also have "\<dots> = filter (\<lambda>c. c \<notin> set (flat t) \<and> n_parent_id (h ! c) = sentinel)
                        (map snd (m_nodes m))"
    proof (rule filter_cong[OF refl])
      fix c assume "c \<in> set (map snd (m_nodes m))"
      with wf have cF: "c \<in> set (flats F)" unfolding wf_map_def by simp
      have "c \<notin> set (flat t)" if c: "c \<noteq> a" "n_parent_id (h ! c) = sentinel"
      proof
        assume "c \<in> set (flat t)"
        from in_flat_cases[OF this] c(1) lt obtain v where
          v: "v \<in> set (subtrees t)" "c \<in> label ` set (kids v)" by auto
        from tF v(1) have "v \<in> set (forest_subtrees F)" using subtrees_trans by fastforce
        from wf_kid_not_root[OF wf this v(2)] wf_root_sentinel[OF wf cF] c(2)
        show False by simp
      qed
      moreover have "c \<noteq> a" if "c \<notin> set (flat t)" using that lt label_in_flat[of t] by auto
      ultimately show "(c \<noteq> a \<and> n_parent_id (h ! c) = sentinel)
          = (c \<notin> set (flat t) \<and> n_parent_id (h ! c) = sentinel)" by blast
    qed
    also have "\<dots> = filter (\<lambda>a. n_parent_id (h1 ! a) = sentinel) (map snd (m_nodes ?m'))"
      by (simp add: filter_map comp_def ids conj_commute)
    finally show ?thesis .
  qed
  have "wf_map (h1, ?m') (prunes a F)"
    unfolding wf_map_def fst_conv snd_conv using w1 w2 w3 w4 w5 w6 by blast
  with gp ac pt run show ?thesis unfolding h1_def by blast
qed

lemma wf_bound: "wf_map (h, m) F \<Longrightarrow> a \<in> set (flats F) \<Longrightarrow> a < length h"
proof -
  assume wf: "wf_map (h, m) F" and "a \<in> set (flats F)"
  then obtain r where r: "r \<in> set F" "a \<in> set (flat r)" by auto
  from wf r(1) have "is_tree h r" unfolding wf_map_def by (auto simp: list_all_iff)
  from is_tree_bound[OF this r(2)] show ?thesis .
qed

lemma ex_branch_wf: "wf_map ex_branch [RT 0 [RT 1 [RT 2 []]]]"
  unfolding wf_map_def
  by (simp add: ex_branch_eval topic_node_def SimpleMindNode_def)

subsection \<open>Integers as text: \<open>int(str(i)) = i\<close>\<close>

lemma lt10_cases:
  "d < 10 \<Longrightarrow> d = 0 \<or> d = 1 \<or> d = 2 \<or> d = 3 \<or> d = 4 \<or> d = 5 \<or> d = 6 \<or> d = 7 \<or> d = 8 \<or> d = (9::nat)"
  by arith

lemma digit_char_props:
  assumes "d < 10"
  shows "is_digit (digit_char d)" "digit_val (digit_char d) = d" "\<not> is_space (digit_char d)"
    "digit_char d \<noteq> CHR ''-''" "digit_char d \<noteq> CHR ''+''"
  using lt10_cases[OF assms]
  by (auto simp: digit_char_def is_digit_def digit_val_def is_space_def)

lemma str_nat_digits: "c \<in> set (str_nat n) \<Longrightarrow> is_digit c"
proof (induction n arbitrary: c rule: str_nat.induct)
  case (1 n)
  show ?case
  proof (cases "n < 10")
    case True
    with 1(2) show ?thesis by (subst (asm) str_nat.simps) (simp add: digit_char_props)
  next
    case False
    with 1(2) have "c \<in> set (str_nat (n div 10)) \<or> c = digit_char (n mod 10)"
      by (subst (asm) str_nat.simps) auto
    with 1(1)[OF False] show ?thesis by (auto simp: digit_char_props)
  qed
qed

lemma str_nat_nonempty [simp]: "str_nat n \<noteq> []"
  by (subst str_nat.simps) simp

lemma nat_of_digits_snoc: "nat_of_digits (s @ [c]) = 10 * nat_of_digits s + digit_val c"
  by (simp add: nat_of_digits_def)

lemma nat_of_digits_str_nat: "nat_of_digits (str_nat n) = n"
proof (induction n rule: str_nat.induct)
  case (1 n)
  show ?case
  proof (cases "n < 10")
    case True
    then show ?thesis
      by (subst str_nat.simps) (simp add: nat_of_digits_def digit_char_props)
  next
    case False
    with 1 have "nat_of_digits (str_nat (n div 10)) = n div 10" by simp
    with False show ?thesis
      by (subst str_nat.simps) (simp add: nat_of_digits_snoc digit_char_props)
  qed
qed

lemma digits_ok_all: "\<forall>c \<in> set s. is_digit c \<Longrightarrow> digits_ok b s = (s \<noteq> [] \<or> b)"
  by (induction s arbitrary: b) auto

lemma strip_id: "s \<noteq> [] \<Longrightarrow> \<not> is_space (hd s) \<Longrightarrow> \<not> is_space (last s) \<Longrightarrow> strip s = s"
proof -
  assume a: "s \<noteq> []" "\<not> is_space (hd s)" "\<not> is_space (last s)"
  then have "dropWhile is_space s = s" by (cases s) auto
  moreover have "dropWhile is_space (rev s) = rev s"
    using a by (cases "rev s") (auto simp: last_rev hd_rev)
  ultimately show ?thesis by (simp add: strip_def)
qed

lemma str_nat_ends:
  "is_digit (hd (str_nat n))" "is_digit (last (str_nat n))"
  using str_nat_digits[of _ n] str_nat_nonempty[of n] by (auto simp: hd_in_set)

lemma digit_not_space: "is_digit c \<Longrightarrow> \<not> is_space c \<and> c \<noteq> CHR ''-'' \<and> c \<noteq> CHR ''+''"
  by (auto simp: is_digit_def is_space_def)

lemma int_of_text_py_str: "int_of_text (py_str i) = Some i"
proof (cases "i < 0")
  case True
  let ?d = "str_nat (nat (- i))"
  have s: "strip (CHR ''-'' # ?d) = CHR ''-'' # ?d"
    using str_nat_ends(2)[of "nat (- i)"] digit_not_space
    by (intro strip_id) (auto simp: is_space_def)
  have "digits_ok False ?d" using digits_ok_all[of ?d False] str_nat_digits by auto
  moreover have "filter is_digit ?d = ?d" using str_nat_digits by (intro filter_True) auto
  ultimately show ?thesis using True
    by (simp add: int_of_text_def py_str_def s Let_def nat_of_digits_str_nat)
next
  case False
  let ?d = "str_nat (nat i)"
  have h: "hd ?d \<noteq> CHR ''-''" "hd ?d \<noteq> CHR ''+''" "\<not> is_space (hd ?d)" "\<not> is_space (last ?d)"
    using str_nat_ends[of "nat i"] digit_not_space by auto
  then have s: "strip ?d = ?d" by (intro strip_id) auto
  have "digits_ok False ?d" using digits_ok_all[of ?d False] str_nat_digits by auto
  moreover have "filter is_digit ?d = ?d" using str_nat_digits by (intro filter_True) auto
  ultimately show ?thesis using False h
    by (simp add: int_of_text_def py_str_def s Let_def nat_of_digits_str_nat)
qed

lemma py_int_py_str [simp]: "py_int (Some (py_str i)) = Inr i"
  by (simp add: py_int_def int_of_text_py_str)

lemma py_int_sentinel: "py_int sentinel = Inr (- 1)"
  by (simp add: int_simps)

subsection \<open>Grafting a leaf\<close>

lemma label_graft [simp]: "label (graft p c t) = label t"
  by (cases t) simp

lemma replicate_mset_plus:
  "replicate_mset (i + j) c = replicate_mset i c + replicate_mset j c"
  by (simp add: multiset_eq_iff)

lemma mset_flats_map:
  "\<forall>u \<in> set us. mset (flat (g u)) = mset (flat u) + replicate_mset (count (mset (flat u)) p) c \<Longrightarrow>
   mset (flats (map g us)) = mset (flats us) + replicate_mset (count (mset (flats us)) p) c"
  by (induction us) (auto simp: replicate_mset_plus)

lemma mset_flat_graft:
  "mset (flat (graft p c r)) = mset (flat r) + replicate_mset (count (mset (flat r)) p) c"
proof (induction r)
  case (RT b us)
  have "\<forall>u \<in> set us. mset (flat (graft p c u))
           = mset (flat u) + replicate_mset (count (mset (flat u)) p) c"
    using RT.IH by blast
  from mset_flats_map[OF this] show ?case by simp
qed

lemma mset_flats_graft:
  assumes "distinct (flats F)" "p \<in> set (flats F)"
  shows "mset (flats (map (graft p c) F)) = mset (flats F @ [c])"
proof -
  have "mset (flats (map (graft p c) F))
        = mset (flats F) + replicate_mset (count (mset (flats F)) p) c"
    by (rule mset_flats_map) (simp add: mset_flat_graft)
  moreover from assms have "count (mset (flats F)) p = 1"
    by (simp add: distinct_count_atmost_1)
  ultimately show ?thesis by simp
qed

lemma flats_graft:
  assumes "distinct (flats F)" "p \<in> set (flats F)" "c \<notin> set (flats F)"
  shows "distinct (flats (map (graft p c) F))"
    "set (flats (map (graft p c) F)) = insert c (set (flats F))"
proof -
  note e = mset_flats_graft[OF assms(1,2), of c]
  have "distinct (flats F @ [c])" using assms(1,3) by simp
  with mset_eq_imp_distinct_iff[OF e] show "distinct (flats (map (graft p c) F))" by simp
  from mset_eq_setD[OF e] show "set (flats (map (graft p c) F)) = insert c (set (flats F))"
    by simp
qed

lemma is_tree_graft:
  assumes "is_tree h r"
    and "h' = (h @ [n])[p := (h ! p)\<lparr>n_children := n_children (h ! p) @ [length h]\<rparr>]"
    and "n_children n = []" "n_parent_id n = n_id (h ! p)" "p < length h"
  shows "is_tree h' (graft p (length h) r)"
  using assms(1)
proof (induction r)
  case (RT b us)
  from RT.prems have b: "b < length h" and cs: "n_children (h ! b) = map label us"
    and ks: "\<forall>t \<in> set us. n_parent_id (h ! label t) = n_id (h ! b) \<and> is_tree h t" by auto
  have old: "n_id (h' ! x) = n_id (h ! x) \<and> n_parent_id (h' ! x) = n_parent_id (h ! x)
      \<and> n_children (h' ! x) = (if x = p then n_children (h ! p) @ [length h] else n_children (h ! x))"
    if "x < length h" for x
    using that assms(5) unfolding assms(2) by (auto simp: nth_list_update nth_append)
  have new: "h' ! length h = n" using assms(5) unfolding assms(2) by simp
  have len: "length h' = Suc (length h)" unfolding assms(2) by simp
  have kb: "label t < length h" if "t \<in> set us" for t
    using is_tree_bound[of h t "label t"] ks that by auto
  have kid: "is_tree h' (graft p (length h) t)" if "t \<in> set us" for t
    using RT.IH[OF that] ks that by blast
  have leaf: "is_tree h' (RT (length h) [])" using new len assms(3) by simp
  show ?case
  proof (cases "b = p")
    case True
    then show ?thesis
      using b len old[OF b] cs kid ks kb old new assms(4) leaf by (auto simp: comp_def)
  next
    case False
    then show ?thesis
      using b len old[OF b] cs kid ks kb old by (auto simp: comp_def)
  qed
qed

lemma update_fresh: "k \<notin> fst ` set al \<Longrightarrow> AList.update k v al = al @ [(k, v)]"
  by (induction al) auto

subsection \<open>Adding a fresh node to a well-formed map\<close>

lemma is_tree_append: "is_tree h r \<Longrightarrow> is_tree (h @ [n]) r"
proof (induction r)
  case (RT b us)
  from RT.prems have b: "b < length h" and cs: "n_children (h ! b) = map label us"
    and ks: "\<forall>t \<in> set us. n_parent_id (h ! label t) = n_id (h ! b) \<and> is_tree h t" by auto
  have kb: "label t < length h" if "t \<in> set us" for t
    using is_tree_bound[of h t "label t"] ks that by auto
  show ?case using b cs ks kb RT.IH by (auto simp: nth_append)
qed

lemma add_node_root_eq:
  assumes "n_id n \<notin> fst ` set (m_nodes m)" "n_parent_id n = sentinel"
  shows "add_node (length h) (h @ [n], m)
         = (h @ [n], m\<lparr>m_nodes := m_nodes m @ [(n_id n, length h)], m_root_node := Some (length h)\<rparr>)"
  using assms by (simp add: add_node_def update_fresh)

lemma add_node_child_eq:
  assumes "n_id n \<notin> fst ` set (m_nodes m)" "n_parent_id n \<noteq> sentinel"
    "get_node m (n_parent_id n) = Some p" "p < length h"
  shows "add_node (length h) (h @ [n], m)
         = ((h @ [n])[p := (h ! p)\<lparr>n_children := n_children (h ! p) @ [length h]\<rparr>],
            m\<lparr>m_nodes := m_nodes m @ [(n_id n, length h)]\<rparr>)"
proof -
  have "map_of (m_nodes m @ [(n_id n, length h)]) (n_parent_id n) = Some p"
    using assms(3) by (simp add: get_node_def map_add_def)
  with assms show ?thesis by (simp add: add_node_def update_fresh nth_append)
qed

lemma wf_values_bound:
  assumes "wf_map (h, m) F" "kv \<in> set (m_nodes m)"
  shows "snd kv < length h" "n_id (h ! snd kv) = fst kv" "snd kv \<in> set (flats F)"
proof -
  from assms show v: "snd kv \<in> set (flats F)" unfolding wf_map_def by auto
  from wf_bound[OF assms(1) v] show "snd kv < length h" .
  from assms show "n_id (h ! snd kv) = fst kv" unfolding wf_map_def by (auto simp: list_all_iff)
qed

lemma add_node_wf_root:
  assumes wf: "wf_map (h, m) F" and fresh: "n_id n \<notin> fst ` set (m_nodes m)"
    and nc: "n_children n = []" and r: "n_parent_id n = sentinel"
  shows "wf_map (add_node (length h) (h @ [n], m)) (F @ [RT (length h) []])"
proof -
  let ?c = "length h"
  let ?m' = "m\<lparr>m_nodes := m_nodes m @ [(n_id n, ?c)], m_root_node := Some ?c\<rparr>"
  have old: "(h @ [n]) ! snd kv = h ! snd kv" if "kv \<in> set (m_nodes m)" for kv
    using wf_values_bound(1)[OF wf that] by (simp add: nth_append)
  have cF: "?c \<notin> set (flats F)" using wf_bound[OF wf] by blast
  have w1: "list_all (is_tree (h @ [n])) (F @ [RT ?c []])"
    using wf nc unfolding wf_map_def by (auto simp: list_all_iff is_tree_append)
  have w2: "distinct (flats (F @ [RT ?c []]))" using wf cF unfolding wf_map_def by simp
  have w3: "set (flats (F @ [RT ?c []])) = snd ` set (m_nodes ?m')"
    using wf unfolding wf_map_def by auto
  have w4: "distinct (map fst (m_nodes ?m'))" using wf fresh unfolding wf_map_def by simp
  have w5: "list_all (\<lambda>(k, a). n_id ((h @ [n]) ! a) = k) (m_nodes ?m')"
    using wf_values_bound(2)[OF wf] old by (auto simp: list_all_iff)
  have "filter (\<lambda>a. n_parent_id ((h @ [n]) ! a) = sentinel) (map snd (m_nodes m))
        = filter (\<lambda>a. n_parent_id (h ! a) = sentinel) (map snd (m_nodes m))"
    by (rule filter_cong[OF refl]) (use old in auto)
  then have w6: "map label (F @ [RT ?c []])
        = filter (\<lambda>a. n_parent_id ((h @ [n]) ! a) = sentinel) (map snd (m_nodes ?m'))"
    using wf r unfolding wf_map_def by simp
  have "wf_map (h @ [n], ?m') (F @ [RT ?c []])"
    unfolding wf_map_def fst_conv snd_conv using w1 w2 w3 w4 w5 w6 by blast
  then show ?thesis unfolding add_node_root_eq[OF fresh r] .
qed

lemma add_node_wf_child:
  assumes wf: "wf_map (h, m) F" and fresh: "n_id n \<notin> fst ` set (m_nodes m)"
    and nc: "n_children n = []" and nr: "n_parent_id n \<noteq> sentinel"
    and gp: "get_node m (n_parent_id n) = Some p"
  shows "wf_map (add_node (length h) (h @ [n], m)) (map (graft p (length h)) F)"
proof -
  let ?c = "length h"
  let ?h' = "(h @ [n])[p := (h ! p)\<lparr>n_children := n_children (h ! p) @ [?c]\<rparr>]"
  let ?m' = "m\<lparr>m_nodes := m_nodes m @ [(n_id n, ?c)]\<rparr>"
  from wf_lookup[OF wf] gp have pF: "p \<in> set (flats F)" and pid: "n_id (h ! p) = n_parent_id n"
    by simp_all
  from wf_bound[OF wf pF] have pb: "p < length h" .
  have pl: "payload (?h' ! x) = payload (h ! x)" if "x < length h" for x
    using that pb by (cases "x = p") (simp_all add: nth_append payload_def)
  have ids: "n_id (?h' ! x) = n_id (h ! x)" "n_parent_id (?h' ! x) = n_parent_id (h ! x)"
    if "x < length h" for x
    using pl[OF that] by (metis payload_sel(3), metis payload_sel(6))
  have new: "?h' ! ?c = n" using pb by simp
  have cF: "?c \<notin> set (flats F)" using wf_bound[OF wf] by blast
  from wf have dF: "distinct (flats F)" unfolding wf_map_def by simp
  have w1: "list_all (is_tree ?h') (map (graft p ?c) F)"
  proof -
    have "is_tree ?h' (graft p ?c r)" if "r \<in> set F" for r
    proof (rule is_tree_graft[where n = n])
      from wf that show "is_tree h r" unfolding wf_map_def by (auto simp: list_all_iff)
    qed (use nc pid pb in simp_all)
    then show ?thesis by (auto simp: list_all_iff)
  qed
  note fg = flats_graft[OF dF pF cF]
  have w3: "set (flats (map (graft p ?c) F)) = snd ` set (m_nodes ?m')"
    using wf fg(2) unfolding wf_map_def by auto
  have w4: "distinct (map fst (m_nodes ?m'))" using wf fresh unfolding wf_map_def by simp
  have w5: "list_all (\<lambda>(k, a). n_id (?h' ! a) = k) (m_nodes ?m')"
    using wf_values_bound(1,2)[OF wf] ids(1) new by (auto simp: list_all_iff)
  have "filter (\<lambda>a. n_parent_id (?h' ! a) = sentinel) (map snd (m_nodes m))
        = filter (\<lambda>a. n_parent_id (h ! a) = sentinel) (map snd (m_nodes m))"
    by (rule filter_cong[OF refl]) (use wf_values_bound(1)[OF wf] ids(2) in auto)
  then have w6: "map label (map (graft p ?c) F)
        = filter (\<lambda>a. n_parent_id (?h' ! a) = sentinel) (map snd (m_nodes ?m'))"
    using wf nr new unfolding wf_map_def by (simp add: comp_def)
  have "wf_map (?h', ?m') (map (graft p ?c) F)"
    unfolding wf_map_def fst_conv snd_conv using w1 fg(1) w3 w4 w5 w6 by blast
  then show ?thesis unfolding add_node_child_eq[OF fresh nr gp pb] .
qed

subsection \<open>The invariants imply consistency and reachability\<close>

lemma reachable_trans: "reachable h b c \<Longrightarrow> reachable h a b \<Longrightarrow> reachable h a c"
  by (induction rule: reachable.induct) (auto intro: reachable.intros)

lemma is_tree_reachable: "is_tree h t \<Longrightarrow> x \<in> set (flat t) \<Longrightarrow> reachable h (label t) x"
proof (induction t)
  case (RT b us)
  show ?case
  proof (cases "x = b")
    case True
    then show ?thesis by (simp add: reachable.start)
  next
    case False
    with RT.prems obtain u where u: "u \<in> set us" "x \<in> set (flat u)" by auto
    with RT.prems have "is_tree h u" by auto
    from RT.IH[OF u(1) this u(2)] have 1: "reachable h (label u) x" .
    from RT.prems u(1) have "label u \<in> set (n_children (h ! b))" by auto
    with reachable.start[of h b] have "reachable h b (label u)" by (rule reachable.child)
    from reachable_trans[OF 1 this] show ?thesis by simp
  qed
qed

lemma wf_consistent:
  assumes wf: "wf_map (h, m) F" and ns: "sentinel \<notin> fst ` set (m_nodes m)"
  shows "consistent (h, m)"
  unfolding consistent_def fst_conv snd_conv
proof (intro ballI)
  fix p n assume "p \<in> snd ` set (m_nodes m)" "n \<in> snd ` set (m_nodes m)"
  with wf have pF: "p \<in> set (flats F)" and nF: "n \<in> set (flats F)" unfolding wf_map_def by simp_all
  from subtree_at_exists[OF pF] obtain u where "subtree_at F p = Some u" by blast
  from subtree_at_Some[OF this] have u: "u \<in> set (forest_subtrees F)" "label u = p" by simp_all
  note uu = wf_subtree[OF wf u(1)]
  show "(n \<in> set (n_children (h ! p))) = (n_parent_id (h ! n) = n_id (h ! p))"
  proof
    assume "n \<in> set (n_children (h ! p))"
    with is_tree_children[OF uu(1)] u(2) have "n \<in> label ` set (kids u)" by simp
    from is_tree_kid[OF uu(1) this] u(2) show "n_parent_id (h ! n) = n_id (h ! p)" by simp
  next
    assume e: "n_parent_id (h ! n) = n_id (h ! p)"
    from wf_lookup[OF wf, of "n_id (h ! p)" p] pF have gp: "get_node m (n_id (h ! p)) = Some p"
      by simp
    then have "(n_id (h ! p), p) \<in> set (m_nodes m)"
      unfolding get_node_def by (rule map_of_SomeD)
    then have "fst (n_id (h ! p), p) \<in> fst ` set (m_nodes m)" by (rule imageI)
    then have "n_id (h ! p) \<in> fst ` set (m_nodes m)" by simp
    with ns e have "n_parent_id (h ! n) \<noteq> sentinel" by metis
    from wf_parent[OF wf nF this] obtain v where v: "v \<in> set (forest_subtrees F)"
      "n \<in> label ` set (kids v)" by blast
    from wf_kid_parent[OF wf v] e gp have "label v = p" by simp
    with is_tree_kid[OF wf_subtree(1)[OF wf v(1)] v(2)] show "n \<in> set (n_children (h ! p))"
      by simp
  qed
qed

lemma tree_shaped_reachable:
  assumes "tree_shaped (h, m)"
  shows "all_reachable (h, m)"
proof -
  from assms obtain t where t: "wf_map (h, m) [t]" "m_root_node m = Some (label t)"
    unfolding tree_shaped_def by auto
  from t(1) have "is_tree h t" "set (flat t) = snd ` set (m_nodes m)"
    unfolding wf_map_def by simp_all
  with is_tree_reachable[of h t] t(2) show ?thesis unfolding all_reachable_def by auto
qed

lemma key_value: "k \<in> fst ` set al \<Longrightarrow> \<exists>a. (k, a) \<in> set al"
  by auto

lemma doc_inv_sentinel:
  assumes wf: "wf_map (h, m) [t]" and c: "consistent (h, m)"
  shows "sentinel \<notin> fst ` set (m_nodes m)"
proof
  assume "sentinel \<in> fst ` set (m_nodes m)"
  from key_value[OF this] obtain k where k: "(sentinel, k) \<in> set (m_nodes m)" ..
  from wf_values_bound(2,3)[OF wf k] have kid: "n_id (h ! k) = sentinel"
    and kF: "k \<in> set (flats [t])" by simp_all
  have rF: "label t \<in> set (flats [t])" by simp
  from wf_root_sentinel[OF wf rF] have rs: "n_parent_id (h ! label t) = sentinel" by simp
  from wf kF rF have "k \<in> snd ` set (m_nodes m)" "label t \<in> snd ` set (m_nodes m)"
    unfolding wf_map_def by simp_all
  with c have "(label t \<in> set (n_children (h ! k))) = (n_parent_id (h ! label t) = n_id (h ! k))"
    unfolding consistent_def fst_conv snd_conv by blast
  with rs kid have rc: "label t \<in> set (n_children (h ! k))" by simp
  from subtree_at_exists[OF kF] obtain u where "subtree_at [t] k = Some u" by blast
  from subtree_at_Some[OF this] have u: "u \<in> set (forest_subtrees [t])" "label u = k"
    by simp_all
  from is_tree_children[OF wf_subtree(1)[OF wf u(1)]] rc u(2)
  have "label t \<in> label ` set (kids u)" by simp
  from wf_kid_not_root[OF wf u(1) this] show False by simp
qed

subsection \<open>Each tool keeps the document a tree\<close>

lemma is_tree_fields:
  assumes "\<And>x. n_children (h' ! x) = n_children (h ! x)" "\<And>x. n_id (h' ! x) = n_id (h ! x)"
    "\<And>x. n_parent_id (h' ! x) = n_parent_id (h ! x)" "length h' = length h"
  shows "is_tree h' t = is_tree h t"
  by (induction t) (auto simp: assms)

lemma wf_map_fields:
  assumes "\<And>x. n_children (h' ! x) = n_children (h ! x)" "\<And>x. n_id (h' ! x) = n_id (h ! x)"
    "\<And>x. n_parent_id (h' ! x) = n_parent_id (h ! x)" "length h' = length h"
  shows "wf_map (h', m) F = wf_map (h, m) F"
proof -
  have "is_tree h' = is_tree h" using is_tree_fields[OF assms] by (intro ext)
  then show ?thesis unfolding wf_map_def by (simp add: assms)
qed

lemma update_fields:
  assumes "n_children n' = n_children (h ! a)" "n_id n' = n_id (h ! a)"
    "n_parent_id n' = n_parent_id (h ! a)"
  shows "n_children (h[a := n'] ! x) = n_children (h ! x)"
    "n_id (h[a := n'] ! x) = n_id (h ! x)"
    "n_parent_id (h[a := n'] ! x) = n_parent_id (h ! x)"
  using assms by (cases "a < length h"; cases "x = a"; simp add: list_update_beyond)+

lemma handle_update_node_fields:
  assumes "handle_update_node node_id new_text new_notes (h, m) = Inr s'"
  shows "snd s' = m" "length (fst s') = length h"
    "n_children (fst s' ! x) = n_children (h ! x)" "n_id (fst s' ! x) = n_id (h ! x)"
    "n_parent_id (fst s' ! x) = n_parent_id (h ! x)"
proof -
  from assms obtain a where a: "get_node m (Some node_id) = Some a"
    unfolding handle_update_node_def Let_def by (auto split: if_splits option.splits)
  define h1 where "h1 = (if truthy new_text then h[a := (h ! a)\<lparr>n_text := the new_text\<rparr>] else h)"
  define h2 where "h2 = (case new_notes of Some nn \<Rightarrow> h1[a := (h1 ! a)\<lparr>n_notes := nn\<rparr>]
                         | None \<Rightarrow> h1)"
  from assms a have s': "s' = (h2, m)"
    unfolding handle_update_node_def Let_def h1_def h2_def fst_conv snd_conv
    by (simp split: if_splits)
  have 1: "n_children (h1 ! y) = n_children (h ! y)" "n_id (h1 ! y) = n_id (h ! y)"
    "n_parent_id (h1 ! y) = n_parent_id (h ! y)" "length h1 = length h" for y
    unfolding h1_def by (simp_all add: update_fields)
  have 2: "n_children (h2 ! y) = n_children (h1 ! y)" "n_id (h2 ! y) = n_id (h1 ! y)"
    "n_parent_id (h2 ! y) = n_parent_id (h1 ! y)" "length h2 = length h1" for y
    unfolding h2_def by (simp_all add: update_fields split: option.split)
  show "snd s' = m" "length (fst s') = length h"
    "n_children (fst s' ! x) = n_children (h ! x)" "n_id (fst s' ! x) = n_id (h ! x)"
    "n_parent_id (fst s' ! x) = n_parent_id (h ! x)"
    unfolding s' by (simp_all add: 1 2)
qed

lemma count_fold_Some:
  "fold (\<lambda>child count. case count of None \<Rightarrow> None
           | Some c \<Rightarrow> (case count_descendants k h child of
                          None \<Rightarrow> None | Some d \<Rightarrow> Some (c + d))) xs acc = Some r
   \<Longrightarrow> \<forall>x \<in> set xs. \<exists>d. count_descendants k h x = Some d"
proof (induction xs arbitrary: acc)
  case Nil
  then show ?case by simp
next
  case (Cons x xs)
  let ?f = "\<lambda>child count. case count of None \<Rightarrow> None
           | Some c \<Rightarrow> (case count_descendants k h child of
                          None \<Rightarrow> None | Some d \<Rightarrow> Some (c + d))"
  have none: "fold ?f ys None = None" for ys by (induction ys) simp_all
  from Cons.prems have r: "fold ?f xs (?f x acc) = Some r" by simp
  from Cons.IH[OF r] have 1: "\<forall>x \<in> set xs. \<exists>d. count_descendants k h x = Some d" .
  from r none have "?f x acc \<noteq> None" by (metis option.distinct(1))
  then have "\<exists>d. count_descendants k h x = Some d" by (auto split: option.splits)
  with 1 show ?case by simp
qed

lemma height_le: "(\<And>t. t \<in> set ts \<Longrightarrow> height t \<le> k) \<Longrightarrow> height (RT a ts) \<le> Suc k"
  by (induction ts) auto

lemma count_descendants_height:
  "is_tree h t \<Longrightarrow> count_descendants k h (label t) = Some c \<Longrightarrow> height t \<le> k"
proof (induction t arbitrary: k c)
  case (RT a ts)
  from RT.prems(2) obtain k' where k: "k = Suc k'" by (cases k) auto
  from RT.prems have cs: "n_children (h ! a) = map label ts" by simp
  from RT.prems(2) count_fold_Some[of k' h "map label ts" "Some 1" c]
  have all: "\<forall>x \<in> set (map label ts). \<exists>d. count_descendants k' h x = Some d"
    by (simp add: k cs)
  have "height t \<le> k'" if t: "t \<in> set ts" for t
  proof -
    from all t obtain d where "count_descendants k' h (label t) = Some d" by auto
    moreover from RT.prems(1) t have "is_tree h t" by simp
    ultimately show ?thesis using RT.IH[OF t] by blast
  qed
  from height_le[of ts k' a, OF this] show ?case by (simp only: k)
qed

lemma handle_delete_node_Inr:
  assumes "handle_delete_node rlimit node_id (h, m) = Inr r"
  shows "\<exists>a c. get_node m (Some node_id) = Some a \<and> n_parent_id (h ! a) \<noteq> sentinel
           \<and> count_descendants rlimit h a = Some c"
  using assms unfolding handle_delete_node_def Let_def
  by (auto split: option.splits if_splits)

lemma ints_of_key:
  assumes "ints_of (map fst al) = Inr vs" "k \<in> fst ` set al"
  shows "\<exists>v \<in> set vs. py_int k = Inr v"
proof -
  from assms(2) have "py_int k \<in> set (map py_int (map fst al))" by auto
  with ints_of_Inr[OF assms(1)] show ?thesis by auto
qed

lemma created_node_sel [simp]:
  "n_id (created_node new_id pid t nt pos) = Some new_id"
  "n_parent_id (created_node new_id pid t nt pos) = Some pid"
  "n_children (created_node new_id pid t nt pos) = []"
  by (simp_all add: created_node_def SimpleMindNode_def)

lemma handle_add_node_wf:
  assumes wf: "wf_map (h, m) F" and ns: "sentinel \<notin> fst ` set (m_nodes m)"
    and rt: "(rk, r) \<in> set (m_nodes m)"
    and rn: "\<And>v. py_int rk = Inr v \<Longrightarrow> 0 \<le> v"
    and run: "handle_add_node pid t nt (h, m) = Inr (s', new_id)"
  shows "\<exists>p. get_node m (Some pid) = Some p
          \<and> wf_map s' (map (graft p (length h)) F)
          \<and> fst ` set (m_nodes (snd s')) = insert (Some new_id) (fst ` set (m_nodes m))
          \<and> Some new_id \<noteq> sentinel
          \<and> m_root_node (snd s') = m_root_node m
          \<and> (\<forall>x < length h. n_id (fst s' ! x) = n_id (h ! x))"
proof -
  from run obtain p where gp: "get_node m (Some pid) = Some p"
    by (cases "get_node m (Some pid)") (simp_all add: handle_add_node_unfold)
  define n where "n = created_node new_id pid t nt (new_position (grandparent_of (h, m) p) (h ! p))"
  from handle_add_node_Inr[OF gp run] obtain vs where
    vs: "ints_of (map fst (m_nodes m)) = Inr vs" "vs \<noteq> []"
      "new_id = py_str (Max (set vs) + 1)" and s': "s' = add_node (length h) (h @ [n], m)"
    unfolding n_def by blast
  have rk: "rk \<in> fst ` set (m_nodes m)" using rt by force
  from ints_of_key[OF vs(1) rk] obtain v where v: "v \<in> set vs" "py_int rk = Inr v"
    by blast
  from rn[OF v(2)] have "0 \<le> v" .
  moreover have "v \<le> Max (set vs)" using v(1) by simp
  ultimately have mx: "0 \<le> Max (set vs)" by simp
  have pn: "py_int (Some new_id) = Inr (Max (set vs) + 1)" unfolding vs(3) by simp
  have fresh: "n_id n \<notin> fst ` set (m_nodes m)"
  proof
    assume "n_id n \<in> fst ` set (m_nodes m)"
    then have "Some new_id \<in> fst ` set (m_nodes m)" by (simp add: n_def)
    from ints_of_key[OF vs(1) this] pn have "Max (set vs) + 1 \<in> set vs" by auto
    from Max_ge[OF finite_set this] show False by simp
  qed
  have nsent: "Some new_id \<noteq> sentinel"
  proof
    assume "Some new_id = sentinel"
    with pn py_int_sentinel have "Max (set vs) + 1 = - 1" by simp
    with mx show False by simp
  qed
  from gp have "(Some pid, p) \<in> set (m_nodes m)" unfolding get_node_def by (rule map_of_SomeD)
  then have "Some pid \<in> fst ` set (m_nodes m)" by force
  with ns have nr: "n_parent_id n \<noteq> sentinel" unfolding n_def by auto
  have nc: "n_children n = []" by (simp add: n_def)
  have gp': "get_node m (n_parent_id n) = Some p" using gp by (simp add: n_def)
  from wf_lookup[OF wf] gp have "p \<in> set (flats F)" by simp
  from wf_bound[OF wf this] have pb: "p < length h" .
  note eq = add_node_child_eq[OF fresh nr gp' pb]
  from add_node_wf_child[OF wf fresh nc nr gp'] have w: "wf_map s' (map (graft p (length h)) F)"
    unfolding s' .
  have keys: "fst ` set (m_nodes (snd s')) = insert (Some new_id) (fst ` set (m_nodes m))"
    unfolding s' eq by (simp add: n_def)
  have root: "m_root_node (snd s') = m_root_node m" unfolding s' eq by simp
  have ids: "n_id (fst s' ! x) = n_id (h ! x)" if "x < length h" for x
  proof -
    have "payload (fst s' ! x) = payload ((h @ [n]) ! x)" unfolding s' by simp
    then have "n_id (fst s' ! x) = n_id ((h @ [n]) ! x)" by (metis payload_sel(3))
    with that show ?thesis by (simp add: nth_append)
  qed
  from gp w keys nsent root ids show ?thesis by blast
qed

lemma op_inv_insert:
  assumes inv: "op_inv (h, m)"
  shows "op_inv (apply_op rlimit (InsertChild pid t nt) (h, m))"
proof (cases "handle_add_node pid t nt (h, m)")
  case (Inl e)
  with inv show ?thesis by (simp add: apply_op_def)
next
  case (Inr res)
  obtain s' new_id where res: "res = (s', new_id)" by (cases res)
  from inv obtain t0 where wf: "wf_map (h, m) [t0]" and root: "m_root_node m = Some (label t0)"
    and ns: "sentinel \<notin> fst ` set (m_nodes m)" and rn: "root_id_nonneg (h, m)"
    unfolding op_inv_def tree_shaped_def by auto
  have r0: "label t0 \<in> set (flats [t0])" by simp
  from wf_bound[OF wf r0] have rb: "label t0 < length h" .
  from wf_lookup[OF wf, of "n_id (h ! label t0)" "label t0"] r0
  have "get_node m (n_id (h ! label t0)) = Some (label t0)" by simp
  then have rt: "(n_id (h ! label t0), label t0) \<in> set (m_nodes m)"
    unfolding get_node_def by (rule map_of_SomeD)
  have rv: "0 \<le> v" if "py_int (n_id (h ! label t0)) = Inr v" for v
    using rn root that unfolding root_id_nonneg_def by simp
  from handle_add_node_wf[OF wf ns rt rv Inr[unfolded res]] obtain p where
    w: "wf_map s' (map (graft p (length h)) [t0])"
    and keys: "fst ` set (m_nodes (snd s')) = insert (Some new_id) (fst ` set (m_nodes m))"
    and nsent: "Some new_id \<noteq> sentinel"
    and root': "m_root_node (snd s') = m_root_node m"
    and ids: "\<forall>x < length h. n_id (fst s' ! x) = n_id (h ! x)" by blast
  have "tree_shaped s'" unfolding tree_shaped_def
    using w root' root by (intro exI[of _ "graft p (length h) t0"]) simp
  moreover have "sentinel \<notin> fst ` set (m_nodes (snd s'))" unfolding keys using ns nsent by auto
  moreover have "root_id_nonneg s'"
    unfolding root_id_nonneg_def using root' root ids rb rv by auto
  ultimately show ?thesis unfolding op_inv_def by (simp add: apply_op_def Inr res)
qed

lemma op_inv_update:
  assumes inv: "op_inv (h, m)"
  shows "op_inv (apply_op rlimit (UpdateNode node_id new_text new_notes) (h, m))"
proof (cases "handle_update_node node_id new_text new_notes (h, m)")
  case (Inl e)
  with inv show ?thesis by (simp add: apply_op_def)
next
  case (Inr s')
  note f = handle_update_node_fields[OF Inr]
  obtain h' where s': "s' = (h', m)" using f(1) by (cases s') simp
  have w: "wf_map (h', m) F = wf_map (h, m) F" for F
    by (rule wf_map_fields) (use f(2-5) in \<open>simp_all add: s'\<close>)
  have i: "n_id (h' ! x) = n_id (h ! x)" for x using f(4)[of x] by (simp add: s')
  from inv have "tree_shaped (h', m)" unfolding op_inv_def tree_shaped_def by (simp add: w)
  moreover from inv have "sentinel \<notin> fst ` set (m_nodes m)" unfolding op_inv_def by simp
  moreover from inv have "root_id_nonneg (h', m)"
    unfolding op_inv_def root_id_nonneg_def fst_conv snd_conv i by blast
  ultimately have "op_inv (h', m)" unfolding op_inv_def by simp
  then show ?thesis by (simp add: apply_op_def Inr s')
qed

lemma op_inv_delete:
  assumes inv: "op_inv (h, m)"
  shows "op_inv (apply_op rlimit (DeleteNode node_id) (h, m))"
proof (cases "handle_delete_node rlimit node_id (h, m)")
  case (Inl e)
  with inv show ?thesis by (simp add: apply_op_def)
next
  case (Inr res)
  from inv obtain t0 where wf: "wf_map (h, m) [t0]" and root: "m_root_node m = Some (label t0)"
    and ns: "sentinel \<notin> fst ` set (m_nodes m)" and rn: "root_id_nonneg (h, m)"
    unfolding op_inv_def tree_shaped_def by auto
  from handle_delete_node_Inr[OF Inr] obtain a c where
    g: "get_node m (Some node_id) = Some a" and nr: "n_parent_id (h ! a) \<noteq> sentinel"
    and cnt: "count_descendants rlimit h a = Some c" by blast
  from wf_lookup[OF wf] g have aF: "a \<in> set (flats [t0])" by simp
  from subtree_at_exists[OF aF] obtain u where u: "subtree_at [t0] a = Some u" by blast
  from subtree_at_Some[OF u] have uF: "u \<in> set (forest_subtrees [t0])" and lu: "label u = a"
    by simp_all
  from count_descendants_height[OF wf_subtree(1)[OF wf uF]] cnt lu
  have ht: "height u \<le> rlimit" by simp
  from handle_delete_node_wf[OF wf g nr u ht] obtain p where
    run: "handle_delete_node rlimit node_id (h, m)
          = Inr ((h[p := (h ! p)\<lparr>n_children := filter (\<lambda>c. c \<noteq> a) (n_children (h ! p))\<rparr>],
                  m\<lparr>m_nodes := filter (\<lambda>kv. snd kv \<notin> set (flat u)) (m_nodes m)\<rparr>),
                 int (length (flat u)) - 1)"
    and w: "wf_map (h[p := (h ! p)\<lparr>n_children := filter (\<lambda>c. c \<noteq> a) (n_children (h ! p))\<rparr>],
                  m\<lparr>m_nodes := filter (\<lambda>kv. snd kv \<notin> set (flat u)) (m_nodes m)\<rparr>)
                (prunes a [t0])" by blast
  let ?h' = "h[p := (h ! p)\<lparr>n_children := filter (\<lambda>c. c \<noteq> a) (n_children (h ! p))\<rparr>]"
  let ?m' = "m\<lparr>m_nodes := filter (\<lambda>kv. snd kv \<notin> set (flat u)) (m_nodes m)\<rparr>"
  from wf_root_sentinel[OF wf aF] nr have "a \<noteq> label t0" by auto
  then have pr: "prunes a [t0] = [prune a t0]" by (simp add: prunes_def)
  have "tree_shaped (?h', ?m')" unfolding tree_shaped_def
    using w root by (intro exI[of _ "prune a t0"]) (simp add: pr)
  moreover have "sentinel \<notin> fst ` set (m_nodes ?m')" using ns by auto
  moreover have "root_id_nonneg (?h', ?m')"
  proof -
    have "payload (?h' ! x) = payload (h ! x)" for x by simp
    then have "n_id (?h' ! x) = n_id (h ! x)" for x by (metis payload_sel(3))
    with rn show ?thesis unfolding root_id_nonneg_def by simp
  qed
  ultimately show ?thesis unfolding op_inv_def by (simp add: apply_op_def run)
qed

lemma op_inv_apply: "op_inv s \<Longrightarrow> op_inv (apply_op rlimit op s)"
  by (cases s; cases op) (simp_all only: op_inv_insert op_inv_update op_inv_delete)

lemma op_inv_fold: "op_inv s \<Longrightarrow> op_inv (fold (apply_op rlimit) ops s)"
  by (induction ops arbitrary: s) (simp_all add: op_inv_apply)

lemma doc_inv_op_inv:
  assumes "doc_inv s" "root_id_nonneg s"
  shows "op_inv s"
proof -
  obtain h m where s: "s = (h, m)" by (cases s)
  from assms(1) obtain t where t: "wf_map (h, m) [t]" and c: "consistent (h, m)"
    unfolding doc_inv_def tree_shaped_def s by auto
  from doc_inv_sentinel[OF t c] assms show ?thesis unfolding op_inv_def doc_inv_def s by simp
qed

lemma op_inv_doc_inv:
  assumes "op_inv s"
  shows "doc_inv s \<and> all_reachable s"
proof -
  obtain h m where s: "s = (h, m)" by (cases s)
  from assms obtain t where t: "wf_map (h, m) [t]"
    and ns: "sentinel \<notin> fst ` set (m_nodes m)" and ts: "tree_shaped (h, m)"
    unfolding op_inv_def tree_shaped_def s by auto
  from wf_consistent[OF t ns] tree_shaped_reachable[OF ts] ts
  show ?thesis unfolding doc_inv_def s by simp
qed

subsection \<open>The delete\_node tool\<close>




subsection \<open>Sequences of tool calls keep the invariants\<close>

lemma ex_neg_eval:
  "fst ex_neg = [topic_node ''-2'' ''-1'' ''Root'' 0 0]"
  "m_nodes (snd ex_neg) = [(Some ''-2'', 0)]"
  "m_root_node (snd ex_neg) = Some 0"
  by (simp_all add: ex_neg_def ex_simps)

lemma ex_neg_wf: "wf_map ex_neg [RT 0 []]"
  unfolding wf_map_def by (simp add: ex_neg_eval topic_node_def SimpleMindNode_def)

lemma ex_neg_doc_inv: "doc_inv ex_neg"
proof -
  have "tree_shaped ex_neg" unfolding tree_shaped_def
    using ex_neg_wf by (intro exI[of _ "RT 0 []"]) (simp add: ex_neg_eval)
  moreover have "consistent ex_neg"
    unfolding consistent_def by (simp add: ex_neg_eval topic_node_def SimpleMindNode_def)
  ultimately show ?thesis unfolding doc_inv_def by simp
qed

lemma ex_neg_step1:
  "\<exists>h m. apply_op 5 (InsertChild ''-2'' ''A'' []) ex_neg = (h, m)
     \<and> map n_id h = [Some ''-2'', Some ''-1''] \<and> map n_parent_id h = [Some ''-1'', Some ''-2'']
     \<and> map n_children h = [[1], []] \<and> map n_x h = [0, 200] \<and> map n_y h = [0, 0]
     \<and> m_nodes m = [(Some ''-2'', 0), (Some ''-1'', 1)] \<and> m_root_node m = Some 0"
proof -
  have "\<exists>s'. handle_add_node ''-2'' ''A'' [] (fst ex_neg, snd ex_neg) = Inr (s', ''-1'')
     \<and> map n_id (fst s') = [Some ''-2'', Some ''-1'']
     \<and> map n_parent_id (fst s') = [Some ''-1'', Some ''-2'']
     \<and> map n_children (fst s') = [[1], []] \<and> map n_x (fst s') = [0, 200]
     \<and> map n_y (fst s') = [0, 0]
     \<and> m_nodes (snd s') = [(Some ''-2'', 0), (Some ''-1'', 1)] \<and> m_root_node (snd s') = Some 0"
    unfolding handle_add_node_unfold
    by (simp add: get_node_def ex_neg_eval int_simps py_max_def py_str_def str_nat_num
          digit_char_def created_node_def new_position_def add_node_def topic_node_def
          SimpleMindNode_def)
  then show ?thesis by (auto simp: apply_op_def)
qed

lemma ex_neg_step2:
  assumes "map n_id h = [Some ''-2'', Some ''-1'']" "map n_parent_id h = [Some ''-1'', Some ''-2'']"
    "map n_children h = [[1], []]" "map n_x h = [0, 200]" "map n_y h = [0, 0]"
    "m_nodes m = [(Some ''-2'', 0), (Some ''-1'', 1)]" "m_root_node m = Some 0"
  shows "\<exists>h' m'. apply_op 5 (InsertChild ''-1'' ''B'' []) (h, m) = (h', m')
     \<and> map n_id h' = [Some ''-2'', Some ''-1'', Some ''0'']
     \<and> map n_parent_id h' = [Some ''-1'', Some ''-2'', Some ''-1'']
     \<and> map n_children h' = [[1], [], []]
     \<and> m_nodes m' = [(Some ''-2'', 0), (Some ''-1'', 1), (Some ''0'', 2)]
     \<and> m_root_node m' = Some 2"
proof -
  from assms(1) obtain a b where h: "h = [a, b]" by (auto simp: map_eq_Cons_conv)
  from assms[unfolded h] have f: "n_id a = Some ''-2''" "n_id b = Some ''-1''"
    "n_parent_id a = Some ''-1''" "n_parent_id b = Some ''-2''"
    "n_children a = [1]" "n_children b = []" by simp_all
  have "\<exists>s'. handle_add_node ''-1'' ''B'' [] (h, m) = Inr (s', ''0'')
     \<and> map n_id (fst s') = [Some ''-2'', Some ''-1'', Some ''0'']
     \<and> map n_parent_id (fst s') = [Some ''-1'', Some ''-2'', Some ''-1'']
     \<and> map n_children (fst s') = [[1], [], []]
     \<and> m_nodes (snd s') = [(Some ''-2'', 0), (Some ''-1'', 1), (Some ''0'', 2)]
     \<and> m_root_node (snd s') = Some 2"
    unfolding handle_add_node_unfold h
    by (simp add: get_node_def assms(6) f int_simps py_max_def py_str_def str_nat_num
          digit_char_def created_node_def add_node_def SimpleMindNode_def)
  then show ?thesis by (auto simp: apply_op_def)
qed

lemma reachable_leaf: "reachable h r x \<Longrightarrow> n_children (h ! r) = [] \<Longrightarrow> x = r"
  by (induction rule: reachable.induct) auto

text \<open>
  C4 as stated fails.  The document \<open>ex_neg\<close> has the single node \<open>-2\<close>, the root, and
  satisfies the invariants.  The first \<open>add_node\<close> call gives the new child the id
  \<open>max + 1 = -1\<close>, the sentinel.  The second call adds a child below the node \<open>-1\<close>:
  \<open>SimpleMindMap.add_node\<close> takes the new node's parent id \<open>-1\<close> for the sentinel, makes
  it the root and does not link it.  Now the new node names \<open>-1\<close> as its parent and is
  not in that node's children list, and the old root is not reachable from the root.
\<close>

theorem tool_calls_negative_id_counterexample:
  "doc_inv ex_neg
   \<and> \<not> consistent (fold (apply_op 5) [InsertChild ''-2'' ''A'' [], InsertChild ''-1'' ''B'' []] ex_neg)
   \<and> \<not> all_reachable (fold (apply_op 5) [InsertChild ''-2'' ''A'' [], InsertChild ''-1'' ''B'' []] ex_neg)"
proof -
  from ex_neg_step1 obtain s1 where 1: "apply_op 5 (InsertChild ''-2'' ''A'' []) ex_neg = s1"
    and a: "map n_id (fst s1) = [Some ''-2'', Some ''-1'']"
    "map n_parent_id (fst s1) = [Some ''-1'', Some ''-2'']"
    "map n_children (fst s1) = [[1], []]" "map n_x (fst s1) = [0, 200]"
    "map n_y (fst s1) = [0, 0]"
    "m_nodes (snd s1) = [(Some ''-2'', 0), (Some ''-1'', 1)]" "m_root_node (snd s1) = Some 0"
    by fastforce
  from ex_neg_step2[OF a] obtain s2 where
    2: "apply_op 5 (InsertChild ''-1'' ''B'' []) (fst s1, snd s1) = s2"
    and b: "map n_id (fst s2) = [Some ''-2'', Some ''-1'', Some ''0'']"
     "map n_parent_id (fst s2) = [Some ''-1'', Some ''-2'', Some ''-1'']"
     "map n_children (fst s2) = [[1], [], []]"
     "m_nodes (snd s2) = [(Some ''-2'', 0), (Some ''-1'', 1), (Some ''0'', 2)]"
     "m_root_node (snd s2) = Some 2" by fastforce
  define h' where "h' = fst s2"
  define m' where "m' = snd s2"
  note b = b[folded h'_def m'_def]
  have run: "fold (apply_op 5) [InsertChild ''-2'' ''A'' [], InsertChild ''-1'' ''B'' []] ex_neg
             = (h', m')" using 1 2 by (simp add: h'_def m'_def)
  from b(1) obtain x y z where h': "h' = [x, y, z]" by (auto simp: map_eq_Cons_conv)
  from b(1-3)[unfolded h'] have f: "n_id y = Some ''-1''" "n_parent_id z = Some ''-1''"
    "n_children y = []" "n_children z = []" by simp_all
  have "\<not> consistent (h', m')"
  proof
    assume "consistent (h', m')"
    then have "(2 \<in> set (n_children (h' ! 1))) = (n_parent_id (h' ! 2) = n_id (h' ! 1))"
      unfolding consistent_def fst_conv snd_conv b(4) by simp
    then show False by (simp add: h' f)
  qed
  moreover have "\<not> all_reachable (h', m')"
  proof
    assume "all_reachable (h', m')"
    then have "reachable h' 2 0" unfolding all_reachable_def fst_conv snd_conv b(4,5) by simp
    from reachable_leaf[OF this] show False by (simp add: h' f)
  qed
  ultimately show ?thesis using ex_neg_doc_inv unfolding run by simp
qed

text \<open>
  C4.  Let a document satisfy the invariants, and let the id of its root not be the text
  of a negative integer.  After any sequence of \<open>add_node\<close>, \<open>update_node\<close> and
  \<open>delete_node\<close> calls, with any recursion limit, and whichever of the calls fail, the
  document satisfies the invariants again: among the objects of the mapping a node is in
  the children list of another exactly when its parent id is the other's id, every
  object of the mapping is reached from the root through children lists, and the id of
  the root is as before not the text of a negative integer.
\<close>

theorem tool_calls_preserve_invariants:
  assumes "doc_inv s" "root_id_nonneg s"
  shows "consistent (fold (apply_op rlimit) ops s)
       \<and> all_reachable (fold (apply_op rlimit) ops s)
       \<and> doc_inv (fold (apply_op rlimit) ops s)
       \<and> root_id_nonneg (fold (apply_op rlimit) ops s)"
proof -
  from op_inv_fold[OF doc_inv_op_inv[OF assms]]
  have i: "op_inv (fold (apply_op rlimit) ops s)" .
  from op_inv_doc_inv[OF i] i show ?thesis unfolding doc_inv_def op_inv_def by simp
qed

lemma ex_branch_root: "m_root_node (snd ex_branch) = Some 0"
  by (simp add: ex_branch_def ex_simps)

theorem tool_calls_preserve_invariants_witness:
  "doc_inv ex_branch \<and> root_id_nonneg ex_branch
   \<and> consistent (fold (apply_op 5)
        [InsertChild ''1'' ''C'' [], DeleteNode ''2'', UpdateNode ''0'' (Some ''Top'') None]
        ex_branch)
   \<and> all_reachable (fold (apply_op 5)
        [InsertChild ''1'' ''C'' [], DeleteNode ''2'', UpdateNode ''0'' (Some ''Top'') None]
        ex_branch)"
proof -
  have "tree_shaped ex_branch" unfolding tree_shaped_def
    using ex_branch_wf by (intro exI[of _ "RT 0 [RT 1 [RT 2 []]]"]) (simp add: ex_branch_root)
  moreover have "consistent ex_branch"
    unfolding consistent_def by (simp add: ex_branch_eval topic_node_def SimpleMindNode_def)
  ultimately have d: "doc_inv ex_branch" unfolding doc_inv_def by simp
  have r: "root_id_nonneg ex_branch"
    unfolding root_id_nonneg_def
    by (simp add: ex_branch_root ex_branch_eval topic_node_def SimpleMindNode_def int_simps)
  from tool_calls_preserve_invariants[OF d r, of 5
      "[InsertChild ''1'' ''C'' [], DeleteNode ''2'', UpdateNode ''0'' (Some ''Top'') None]"] d r
  show ?thesis by simp
qed

subsection \<open>Search and case\<close>















end
